theory Spec2Isabelle
  imports Main "HOL-Library.Word" "HOL-Library.List_Lexorder"
begin

unbundle bit_operations_syntax

section \<open>Bytes, fixed-width integers and the checksum\<close>

text \<open>
  A file is a list of bytes. \<open>std::string\<close> is a list of bytes too; \<open>std::map\<close> over
  \<open>std::string\<close> orders its keys lexicographically on unsigned bytes, which is the
  order of \<open>8 word list\<close>. The source writes multi-byte fields as their in-memory
  representation; the model fixes little-endian, the layout of the machines the code
  is built for.
\<close>

type_synonym byte = "8 word"
type_synonym uint16_t = "16 word"
type_synonym uint32_t = "32 word"
type_synonym uint64_t = "64 word"

fun le_bytes :: "nat \<Rightarrow> nat \<Rightarrow> byte list" where
  "le_bytes 0 n = []"
| "le_bytes (Suc k) n = of_nat (n mod 256) # le_bytes k (n div 256)"

lemma le_bytes_numeral:
  "le_bytes (numeral k) n = of_nat (n mod 256) # le_bytes (pred_numeral k) (n div 256)"
proof -
  have "numeral k = Suc (pred_numeral k)" by (rule numeral_eq_Suc)
  then show ?thesis by (metis le_bytes.simps(2))
qed

fun le_nat :: "byte list \<Rightarrow> nat" where
  "le_nat [] = 0"
| "le_nat (b # bs) = unat b + 256 * le_nat bs"

definition bytes_of_u16 :: "uint16_t \<Rightarrow> byte list" where
  "bytes_of_u16 w = le_bytes 2 (unat w)"

definition bytes_of_u32 :: "uint32_t \<Rightarrow> byte list" where
  "bytes_of_u32 w = le_bytes 4 (unat w)"

definition bytes_of_u64 :: "uint64_t \<Rightarrow> byte list" where
  "bytes_of_u64 w = le_bytes 8 (unat w)"

text \<open>
  A read of \<open>n\<close> bytes into an object that delivers fewer bytes leaves the rest of
  the object as it was: \<open>overlay got old\<close> is the object's memory after the read.
\<close>

definition overlay :: "byte list \<Rightarrow> byte list \<Rightarrow> byte list" where
  "overlay got old = got @ drop (length got) old"

text \<open>
  zlib's \<open>crc32(crc, buf, len)\<close>: the CRC-32 with the reflected polynomial
  \<open>0xEDB88320\<close>, the running value complemented on entry and on exit.
  \<open>crc32(0L, Z_NULL, 0)\<close> is \<open>0\<close>.
\<close>

definition crc_shift :: "uint32_t \<Rightarrow> uint32_t" where
  "crc_shift c = (if bit c 0 then drop_bit 1 c XOR 0xEDB88320 else drop_bit 1 c)"

definition crc_byte :: "uint32_t \<Rightarrow> byte \<Rightarrow> uint32_t" where
  "crc_byte c b = (crc_shift ^^ 8) (c XOR ucast b)"

definition zcrc32 :: "uint32_t \<Rightarrow> byte list \<Rightarrow> uint32_t" where
  "zcrc32 crc buf = NOT (foldl crc_byte (NOT crc) buf)"

section \<open>The entry descriptor\<close>

text \<open>
  \<open>CompressionMethod\<close> is an \<open>enum class\<close> over \<open>uint8_t\<close>; the reader fills it
  with a raw byte of the file, so it can hold any byte. \<open>NONE\<close> is 0, \<open>ZLIB\<close> is 1.
\<close>

type_synonym CompressionMethod = byte

definition NONE :: CompressionMethod where "NONE = 0"
definition ZLIB :: CompressionMethod where "ZLIB = 1"

record Flags =
  encrypted :: bool

definition Flags_of_byte :: "byte \<Rightarrow> Flags" where
  "Flags_of_byte flagByte = \<lparr>encrypted = bit flagByte 0\<rparr>"

definition byte_of_Flags :: "Flags \<Rightarrow> byte" where
  "byte_of_Flags f = 1 AND (if encrypted f then 1 else 0)"

record TableEntry =
  name :: "byte list"
  compressionMethod :: CompressionMethod
  fileFlags :: Flags
  crc32 :: uint32_t
  originalSize :: uint64_t
  dataStart :: uint64_t
  dataEnd :: uint64_t

text \<open>The default member initialisers of \<open>TableEntry\<close>.\<close>

definition TableEntry_default :: TableEntry where
  "TableEntry_default =
     \<lparr>name = [], compressionMethod = NONE, fileFlags = \<lparr>encrypted = False\<rparr>,
      crc32 = 0, originalSize = 0, dataStart = 0, dataEnd = 0\<rparr>"

text \<open>The three-argument constructor.\<close>

definition TableEntry_new :: "byte list \<Rightarrow> CompressionMethod \<Rightarrow> Flags \<Rightarrow> TableEntry" where
  "TableEntry_new nm cMethod flags =
     TableEntry_default\<lparr>name := nm, compressionMethod := cMethod, fileFlags := flags\<rparr>"

definition sizeInArchive :: "TableEntry \<Rightarrow> uint64_t" where
  "sizeInArchive e = dataEnd e - dataStart e"

definition DATFILESIGNATURE :: "byte list" where
  "DATFILESIGNATURE = [0xB1, 0x44, 0x41, 0x54]"

definition DATFILEVERSION :: byte where
  "DATFILEVERSION = 0x01"

definition CHUNKSIZE :: nat where
  "CHUNKSIZE = 262144"

section \<open>The input stream\<close>

text \<open>
  \<open>std::ifstream\<close> as the reader uses it: the bytes of the file it was opened on, the
  get position and the three state bits. A read that cannot deliver all the bytes asked
  for delivers what is there and sets \<open>eofbit\<close> and \<open>failbit\<close>; every input function
  called on a stream that is not good sets \<open>failbit\<close> and does nothing else; \<open>seekg\<close>
  clears \<open>eofbit\<close> first, may go past the end of the file and fails on a negative
  offset (the largest offset a file system takes is not modelled: every offset that is
  not negative can be sought to); \<open>tellg\<close> gives \<open>-1\<close> on a failed stream. No operation of the model sets
  \<open>badbit\<close>: it stands for a device error and is part of the state a theorem
  quantifies over.
\<close>

record ifstream =
  is_open :: bool
  content :: "byte list"
  gpos :: nat
  eofbit :: bool
  failbit :: bool
  badbit :: bool

definition ifstream_new :: ifstream where
  "ifstream_new = \<lparr>is_open = False, content = [], gpos = 0,
     eofbit = False, failbit = False, badbit = False\<rparr>"

definition good :: "ifstream \<Rightarrow> bool" where
  "good s = (\<not> eofbit s \<and> \<not> failbit s \<and> \<not> badbit s)"

definition fail :: "ifstream \<Rightarrow> bool" where
  "fail s = (failbit s \<or> badbit s)"

definition bad :: "ifstream \<Rightarrow> bool" where
  "bad s = badbit s"

definition remaining :: "ifstream \<Rightarrow> byte list" where
  "remaining s = (if is_open s then drop (gpos s) (content s) else [])"

definition sread :: "ifstream \<Rightarrow> nat \<Rightarrow> byte list \<times> ifstream" where
  "sread s n =
     (if \<not> good s then ([], s\<lparr>failbit := True\<rparr>)
      else if n \<le> length (remaining s) then (take n (remaining s), s\<lparr>gpos := gpos s + n\<rparr>)
      else (remaining s,
            s\<lparr>gpos := gpos s + length (remaining s), eofbit := True, failbit := True\<rparr>))"

definition seekg :: "ifstream \<Rightarrow> uint64_t \<Rightarrow> ifstream" where
  "seekg s off =
     (let s1 = s\<lparr>eofbit := False\<rparr> in
      if \<not> good s1 then s1\<lparr>failbit := True\<rparr>
      else if \<not> is_open s1 \<or> sint off < 0 then s1\<lparr>failbit := True\<rparr>
      else s1\<lparr>gpos := unat off\<rparr>)"

definition tellg :: "ifstream \<Rightarrow> uint64_t \<times> ifstream" where
  "tellg s = (if \<not> good s then (- 1, s\<lparr>failbit := True\<rparr>) else (of_nat (gpos s), s))"

definition sclear :: "ifstream \<Rightarrow> ifstream" where
  "sclear s = s\<lparr>eofbit := False, failbit := False, badbit := False\<rparr>"

definition sclose :: "ifstream \<Rightarrow> ifstream" where
  "sclose s = (if is_open s then s\<lparr>is_open := False\<rparr> else s\<lparr>failbit := True\<rparr>)"

text \<open>
  The file system maps a path to the bytes of the file there. Opening a stream that is
  already open fails; a successful open resets the state bits.
\<close>

type_synonym 'p filesystem = "'p \<Rightarrow> byte list option"

definition sopen :: "'p filesystem \<Rightarrow> ifstream \<Rightarrow> 'p \<Rightarrow> ifstream" where
  "sopen fs s path =
     (if is_open s then s\<lparr>failbit := True\<rparr>
      else case fs path of
        None \<Rightarrow> s\<lparr>failbit := True\<rparr>
      | Some bs \<Rightarrow> \<lparr>is_open = True, content = bs, gpos = 0,
                    eofbit = False, failbit = False, badbit = False\<rparr>)"

section \<open>The reader\<close>

record Reader =
  archive :: ifstream
  archiveVersion :: byte
  tableOffset :: uint64_t
  entries :: "(byte list \<times> TableEntry) list"
  openFlag :: bool
  badFlag :: bool

text \<open>
  \<open>entries\<close> is a \<open>std::map\<close>: the model keeps it as the list of its pairs in key
  order. \<open>emplace\<close> inserts a pair unless the key is there already.
\<close>

fun emplace :: "'k::linorder \<Rightarrow> 'v \<Rightarrow> ('k \<times> 'v) list \<Rightarrow> ('k \<times> 'v) list" where
  "emplace k v [] = [(k, v)]"
| "emplace k v ((k', v') # kvs) =
     (if k = k' then (k', v') # kvs
      else if k < k' then (k, v) # (k', v') # kvs
      else (k', v') # emplace k v kvs)"

definition Reader_new :: Reader where
  "Reader_new = \<lparr>archive = ifstream_new, archiveVersion = 0, tableOffset = 0,
     entries = [], openFlag = False, badFlag = False\<rparr>"

definition validateArchive :: "byte list \<Rightarrow> byte \<Rightarrow> bool" where
  "validateArchive signature version =
     (DATFILESIGNATURE = signature \<and> DATFILEVERSION = version)"

definition closeArchive :: "Reader \<Rightarrow> bool \<times> Reader" where
  "closeArchive r =
     (if openFlag r then (False, r)
      else (True, r\<lparr>archive := sclose (archive r), openFlag := False\<rparr>))"


definition contains :: "Reader \<Rightarrow> byte list \<Rightarrow> bool" where
  "contains r nm = (map_of (entries r) nm \<noteq> None)"

definition isOpen :: "Reader \<Rightarrow> bool" where
  "isOpen r = openFlag r"

definition isBad :: "Reader \<Rightarrow> bool" where
  "isBad r = badFlag r"

definition getTableOffset :: "Reader \<Rightarrow> uint64_t" where
  "getTableOffset r = tableOffset r"

definition getTable :: "Reader \<Rightarrow> TableEntry list" where
  "getTable r = map snd (entries r)"

definition listFiles :: "Reader \<Rightarrow> byte list list" where
  "listFiles r = map fst (entries r)"

text \<open>
  The exceptions the library throws: \<open>std::out_of_range\<close> from \<open>std::map::at\<close>,
  \<open>std::length_error\<close> and \<open>std::bad_alloc\<close> from the constructor of a vector, and
  \<open>std::filesystem::filesystem_error\<close> from \<open>create_directories\<close>.
\<close>

datatype exception = out_of_range | length_error | bad_alloc | filesystem_error

text \<open>
  \<open>getFileEntry\<close> answers with \<open>entries.at(name)\<close>, which throws
  \<open>std::out_of_range\<close> for a key that is not in the map. On a reader that is not open
  or is bad it executes \<open>return {}\<close>: the reference it returns is bound to a temporary
  that is gone when the function has returned, \<open>Dangling\<close> in the model.
\<close>

datatype entry_ref = Entry TableEntry | Dangling

definition getFileEntry :: "Reader \<Rightarrow> byte list \<Rightarrow> exception + entry_ref" where
  "getFileEntry r nm =
     (if \<not> openFlag r \<or> badFlag r then Inr Dangling
      else case map_of (entries r) nm of
        None \<Rightarrow> Inl out_of_range
      | Some e \<Rightarrow> Inr (Entry e))"


section \<open>Loading the table\<close>

text \<open>The value of an object after a read that delivered \<open>got\<close> into it.\<close>

definition u8_after :: "byte list \<Rightarrow> byte \<Rightarrow> byte" where
  "u8_after got old = (case got of [] \<Rightarrow> old | b # _ \<Rightarrow> b)"

definition u32_after :: "byte list \<Rightarrow> uint32_t \<Rightarrow> uint32_t" where
  "u32_after got old = of_nat (le_nat (overlay got (bytes_of_u32 old)))"

definition u64_after :: "byte list \<Rightarrow> uint64_t \<Rightarrow> uint64_t" where
  "u64_after got old = of_nat (le_nat (overlay got (bytes_of_u64 old)))"

text \<open>
  The flags byte is read into the \<open>bool\<close> of \<open>Flags\<close> as it is; the model reads
  every byte other than 0 as \<open>true\<close>.
\<close>

definition Flags_after :: "byte list \<Rightarrow> Flags \<Rightarrow> Flags" where
  "Flags_after got old = (case got of [] \<Rightarrow> old | b # _ \<Rightarrow> \<lparr>encrypted = (b \<noteq> 0)\<rparr>)"

text \<open>
  The body of the loop of \<open>loadTable\<close> after the name length has been read: seven
  reads into a default-constructed entry, none of them checked.
\<close>

definition read_entry :: "ifstream \<Rightarrow> nat \<Rightarrow> TableEntry \<times> ifstream" where
  "read_entry a1 nameLength =
     (let (nm, a2) = sread a1 nameLength;
          (cm, a3) = sread a2 1;
          (fl, a4) = sread a3 1;
          (cr, a5) = sread a4 4;
          (os, a6) = sread a5 8;
          (ds, a7) = sread a6 8;
          (de, a8) = sread a7 8
      in (\<lparr>name = overlay nm (replicate nameLength 0),
           compressionMethod = u8_after cm NONE,
           fileFlags = Flags_after fl \<lparr>encrypted = False\<rparr>,
           crc32 = u32_after cr 0,
           originalSize = u64_after os 0,
           dataStart = u64_after ds 0,
           dataEnd = u64_after de 0\<rparr>, a8))"

lemma sread_content: "content (snd (sread s n)) = content s"
  by (simp add: sread_def)

lemma sread_is_open: "is_open (snd (sread s n)) = is_open s"
  by (simp add: sread_def)

lemma sread_gpos_mono: "gpos s \<le> gpos (snd (sread s n))"
  by (simp add: sread_def)

lemma sread_ok:
  "\<not> fail (snd (sread s n)) \<Longrightarrow>
     good s \<and> n \<le> length (remaining s) \<and> snd (sread s n) = s\<lparr>gpos := gpos s + n\<rparr>"
  by (auto simp: sread_def fail_def split: if_splits)

lemma read_entry_content: "content (snd (read_entry s n)) = content s"
  by (simp add: read_entry_def Let_def split_beta sread_content)

lemma read_entry_gpos_mono: "gpos s \<le> gpos (snd (read_entry s n))"
proof -
  have step: "\<And>t k. gpos s \<le> gpos t \<Longrightarrow> gpos s \<le> gpos (snd (sread t k))"
    using sread_gpos_mono le_trans by blast
  show ?thesis
    by (simp add: read_entry_def Let_def split_beta step sread_gpos_mono)
qed

lemma loadTable_loop_decreases:
  assumes rd: "sread a 2 = (nl, a1)" and nf: "\<not> fail a1"
    and re: "read_entry a1 n = (entry, a8)"
  shows "length (content a8) - gpos a8 < length (content a) - gpos a"
proof -
  have a1: "a1 = snd (sread a 2)" using rd by simp
  then have ok: "good a" "2 \<le> length (remaining a)" "a1 = a\<lparr>gpos := gpos a + 2\<rparr>"
    using sread_ok [of a 2] nf by simp_all
  have a8: "a8 = snd (read_entry a1 n)" using re by simp
  have c: "content a8 = content a"
    using a8 ok(3) read_entry_content [of a1 n] by simp
  have g: "gpos a + 2 \<le> gpos a8"
    using a8 ok(3) read_entry_gpos_mono [of a1 n] by simp
  have "gpos a + 2 \<le> length (content a)"
    using ok(2) by (simp add: remaining_def split: if_splits)
  then show ?thesis using c g by simp
qed

function loadTable_loop :: "ifstream \<Rightarrow> (byte list \<times> TableEntry) list
    \<Rightarrow> ifstream \<times> (byte list \<times> TableEntry) list" where
  "loadTable_loop a es =
     (case sread a 2 of (nl, a1) \<Rightarrow>
        if fail a1 then (a1, es)
        else case read_entry a1 (le_nat nl) of (entry, a8) \<Rightarrow>
          loadTable_loop a8 (emplace (name entry) entry es))"
  by pat_completeness auto
termination
  apply (relation "measure (\<lambda>(a, es). length (content a) - gpos a)")
   apply simp
  apply (simp add: loadTable_loop_decreases [OF sym _ sym])
  done

declare loadTable_loop.simps [simp del]

definition loadTable :: "Reader \<Rightarrow> bool \<times> Reader" where
  "loadTable r =
     (let a = seekg (archive r) (tableOffset r) in
      if fail a \<or> tableOffset r = 0 then (False, r\<lparr>archive := a\<rparr>)
      else case loadTable_loop a (entries r) of (a', es) \<Rightarrow>
        (True, r\<lparr>archive := seekg (sclear a') 0, entries := es\<rparr>))"

text \<open>
  \<open>openArchive\<close>. The four bytes of \<open>signature\<close> are a local array; where the read
  delivers fewer than four, the model takes the bytes it does not fill as zero. The
  version goes into the member \<open>archiveVersion\<close>, which keeps its value when the read
  delivers nothing.
\<close>

definition openArchive :: "'p filesystem \<Rightarrow> Reader \<Rightarrow> 'p \<Rightarrow> bool \<times> Reader" where
  "openArchive fs r0 archiveFilePath =
     (let r = r0\<lparr>openFlag := False, badFlag := False\<rparr> in
      if fs archiveFilePath = None then (False, r)
      else
        let a = sopen fs (archive r) archiveFilePath in
        if fail a then (False, r\<lparr>archive := a\<rparr>)
        else
          let (sg, a1) = sread a 4;
              (vr, a2) = sread a1 1;
              signature = overlay sg (replicate 4 0);
              r1 = r\<lparr>archive := a2, archiveVersion := u8_after vr (archiveVersion r),
                     openFlag := True\<rparr>
          in if \<not> validateArchive signature (archiveVersion r1)
             then (False, r1\<lparr>badFlag := True\<rparr>)
             else
               let (tb, a3) = sread a2 8
               in loadTable (r1\<lparr>archive := a3, tableOffset := u64_after tb (tableOffset r1)\<rparr>))"

text \<open>The constructor opens the archive and drops the result of \<open>openArchive\<close>.\<close>

definition DatArchiveReader :: "'p filesystem \<Rightarrow> 'p \<Rightarrow> Reader" where
  "DatArchiveReader fs archiveFilePath = snd (openArchive fs Reader_new archiveFilePath)"


section \<open>Extraction\<close>

text \<open>
  What the library and the allocator give the reader. \<open>inflate\<close> is zlib's function
  on a stream state: it is handed the input of this call (\<open>next_in\<close>, \<open>avail_in\<close>)
  and the room left in the output buffer (\<open>avail_out\<close>), and answers with its return
  code, the new state and the bytes it appended to the output; it never appends more
  than \<open>avail_out\<close> bytes. \<open>chunk_mem\<close> is what the freshly allocated input chunk
  holds before the first read. \<open>allocates n\<close> tells whether the vector of \<open>n\<close>
  bytes that \<open>getFile\<close> constructs, a size the archive file dictates, can be had;
  the input chunk of \<open>CHUNKSIZE\<close> bytes and the strings of the table are taken to be
  had always. The engine is a parameter of every function that calls it. The pointers
  of the stream are not in the model: zlib's \<open>inflate\<close> answers \<open>Z_STREAM_ERROR\<close>
  when \<open>next_out\<close> is null, and an engine of the model may answer so when the room
  is 0.
\<close>

datatype zret = Z_OK | Z_STREAM_END | Z_NEED_DICT | Z_ERRNO | Z_STREAM_ERROR
  | Z_DATA_ERROR | Z_MEM_ERROR | Z_BUF_ERROR | Z_VERSION_ERROR

record 'z runtime =
  inflateInit :: "zret \<times> 'z"
  inflate :: "'z \<Rightarrow> byte list \<Rightarrow> nat \<Rightarrow> zret \<times> 'z \<times> byte list"
  chunk_mem :: "nat \<Rightarrow> byte"
  allocates :: "nat \<Rightarrow> bool"

text \<open>
  A call ends by returning, by throwing, or by reading or writing memory that is not
  the object's (past the end of a buffer, or through a reference to a temporary that is
  gone), after which the language promises nothing. A call that does not end is the
  \<open>None\<close> of the option type.
\<close>

datatype 'a outcome = Returns 'a | Throws exception | Overrun

text \<open>
  \<open>istream::read\<close> takes its count as the signed \<open>streamsize\<close>: a 64-bit count
  with the top bit set is negative, nothing is extracted and the read counts as short.
\<close>

definition sread64 :: "ifstream \<Rightarrow> uint64_t \<Rightarrow> byte list \<times> ifstream" where
  "sread64 s n =
     (if sint n < 0
      then (if good s then ([], s\<lparr>eofbit := True, failbit := True\<rparr>)
            else ([], s\<lparr>failbit := True\<rparr>))
      else sread s (unat n))"

text \<open>zlib's \<open>crc32\<close> and \<open>avail_in\<close>, \<open>avail_out\<close> take their lengths as the 32-bit \<open>uInt\<close>.\<close>

definition uInt :: "uint64_t \<Rightarrow> nat" where
  "uInt n = unat (ucast n :: uint32_t)"

text \<open>
  \<open>extractFile\<close>: \<open>buffer\<close> is the memory the caller handed in, and the result holds
  what it is afterwards.
\<close>

definition extractFile :: "Reader \<Rightarrow> TableEntry \<Rightarrow> byte list \<Rightarrow> bool
    \<Rightarrow> (uint64_t \<times> Reader \<times> byte list) outcome" where
  "extractFile r entry buffer validateCrc =
     (let a1 = seekg (archive r) (dataStart entry);
          (got, a2) = sread64 a1 (sizeInArchive entry)
      in if length buffer < length got \<or> length buffer < uInt (sizeInArchive entry)
         then Overrun
         else
           let buffer' = overlay got buffer;
               calculatedCrc = zcrc32 0 (take (uInt (sizeInArchive entry)) buffer')
           in if validateCrc \<and> calculatedCrc \<noteq> crc32 entry
              then Returns (0, r\<lparr>archive := a2\<rparr>, buffer')
              else
                let (t, a3) = tellg a2
                in Returns (t - dataStart entry, r\<lparr>archive := a3\<rparr>, buffer'))"

text \<open>The state of the loop of \<open>zlibExtractFile\<close>.\<close>

record 'z zloop =
  zl_reader :: Reader
  zl_strm :: 'z
  zl_avail_out :: nat
  zl_out :: "byte list"
  zl_in :: "nat \<Rightarrow> byte"
  zl_crc :: uint32_t

definition fill :: "byte list \<Rightarrow> (nat \<Rightarrow> byte) \<Rightarrow> nat \<Rightarrow> byte" where
  "fill got mem = (\<lambda>i. if i < length got then got ! i else mem i)"

definition is_inflate_error :: "zret \<Rightarrow> bool" where
  "is_inflate_error rc = (rc = Z_NEED_DICT \<or> rc = Z_DATA_ERROR \<or> rc = Z_MEM_ERROR)"

text \<open>
  One pass through the body of the \<open>do ... while (rc != Z_STREAM_END)\<close> loop:
  \<open>zlib_fetch\<close> is the read of the next chunk, with the bytes delivered, the
  stream afterwards and \<open>avail_in\<close>. In the result of the pass \<open>Inl\<close> is how the
  function ends in this pass, \<open>Inr\<close> the state the next pass starts from.
\<close>

definition zlib_fetch :: "TableEntry \<Rightarrow> ifstream \<Rightarrow> byte list \<times> ifstream \<times> nat" where
  "zlib_fetch entry a =
     (let (t1, a1) = tellg a;
          (availableBytes, a2) =
             (if t1 + of_nat CHUNKSIZE < dataEnd entry then (of_nat CHUNKSIZE, a1)
              else (let (t2, a2) = tellg a1 in (dataEnd entry - t2, a2)));
          (got, a3) = sread64 a2 availableBytes
      in (got, a3, uInt availableBytes))"

definition zlib_pass :: "'z runtime \<Rightarrow> TableEntry \<Rightarrow> byte list \<Rightarrow> bool \<Rightarrow> 'z zloop
    \<Rightarrow> (uint64_t \<times> Reader \<times> byte list) outcome + 'z zloop" where
  "zlib_pass E entry buffer validateCrc st =
     (let r = zl_reader st;
          (got, a3, avail_in) = zlib_fetch entry (archive r)
      in if CHUNKSIZE < length got \<or> CHUNKSIZE < avail_in then Inl Overrun
         else
           let mem = fill got (zl_in st);
               input = map mem [0..<avail_in];
               r1 = r\<lparr>archive := a3\<rparr>
           in if bad a3
              then Inl (Returns (0, r1\<lparr>badFlag := True\<rparr>, overlay (zl_out st) buffer))
              else
                let calculatedCrc = zcrc32 (zl_crc st) input;
                    (rc, z, produced) = inflate E (zl_strm st) input (zl_avail_out st);
                    out = zl_out st @ take (zl_avail_out st) produced
                in if length buffer < length out then Inl Overrun
                   else if is_inflate_error rc
                   then Inl (Returns (0, r1\<lparr>badFlag := False\<rparr>, overlay out buffer))
                   else if rc \<noteq> Z_STREAM_END
                   then Inr \<lparr>zl_reader = r1, zl_strm = z,
                             zl_avail_out = zl_avail_out st - length (take (zl_avail_out st) produced),
                             zl_out = out, zl_in = mem, zl_crc = calculatedCrc\<rparr>
                   else if validateCrc \<and> calculatedCrc \<noteq> crc32 entry
                   then Inl (Returns (0, r1, overlay out buffer))
                   else Inl (Returns (originalSize entry, r1, overlay out buffer)))"

partial_function (option) zlib_loop :: "'z runtime \<Rightarrow> TableEntry \<Rightarrow> byte list \<Rightarrow> bool
    \<Rightarrow> 'z zloop \<Rightarrow> (uint64_t \<times> Reader \<times> byte list) outcome option" where
  "zlib_loop E entry buffer validateCrc st =
     (case zlib_pass E entry buffer validateCrc st of
        Inl res \<Rightarrow> Some res
      | Inr st' \<Rightarrow> zlib_loop E entry buffer validateCrc st')"

definition zlibExtractFile :: "'z runtime \<Rightarrow> Reader \<Rightarrow> TableEntry \<Rightarrow> byte list \<Rightarrow> bool
    \<Rightarrow> (uint64_t \<times> Reader \<times> byte list) outcome option" where
  "zlibExtractFile E r entry buffer validateCrc =
     (let r0 = r\<lparr>archive := seekg (archive r) (dataStart entry)\<rparr>;
          (rc, z) = inflateInit E
      in if rc \<noteq> Z_OK then Some (Returns (0, r0, buffer))
         else zlib_loop E entry buffer validateCrc
                \<lparr>zl_reader = r0, zl_strm = z, zl_avail_out = uInt (originalSize entry),
                 zl_out = [], zl_in = chunk_mem E, zl_crc = 0\<rparr>)"

definition getFileFromEntry :: "'z runtime \<Rightarrow> Reader \<Rightarrow> TableEntry \<Rightarrow> byte list \<Rightarrow> bool
    \<Rightarrow> (uint64_t \<times> Reader \<times> byte list) outcome option" where
  "getFileFromEntry E r entry buffer validateCrc =
     (if compressionMethod entry = NONE then Some (extractFile r entry buffer validateCrc)
      else if compressionMethod entry = ZLIB then zlibExtractFile E r entry buffer validateCrc
      else Some (Returns (0, r, buffer)))"

text \<open>
  \<open>getFile\<close>. \<open>std::vector<char> dest(n)\<close> throws \<open>std::length_error\<close> when
  \<open>n\<close> is more than the vector's \<open>max_size()\<close>, which is \<open>PTRDIFF_MAX\<close> for
  \<open>char\<close>, and \<open>std::bad_alloc\<close> when the memory cannot be had. The vector is
  zero-filled. \<open>getFileEntry\<close> is called behind the test of the flags.
\<close>

definition vector_max_size :: nat where
  "vector_max_size = 2 ^ 63 - 1"

definition getFile :: "'z runtime \<Rightarrow> Reader \<Rightarrow> byte list
    \<Rightarrow> (byte list \<times> Reader) outcome option" where
  "getFile E r nm =
     (if \<not> openFlag r \<or> badFlag r then Some (Returns ([], r))
      else if \<not> contains r nm then Some (Returns ([], r))
      else case getFileEntry r nm of
        Inl x \<Rightarrow> Some (Throws x)
      | Inr Dangling \<Rightarrow> Some Overrun
      | Inr (Entry entry) \<Rightarrow>
          if vector_max_size < unat (originalSize entry) then Some (Throws length_error)
          else if \<not> allocates E (unat (originalSize entry)) then Some (Throws bad_alloc)
          else
            case getFileFromEntry E r entry (replicate (unat (originalSize entry)) 0) True of
              None \<Rightarrow> None
            | Some Overrun \<Rightarrow> Some Overrun
            | Some (Throws x) \<Rightarrow> Some (Throws x)
            | Some (Returns (n, r', dest)) \<Rightarrow>
                Some (Returns (if n \<noteq> 0 then dest else [], r')))"



section \<open>Small archives and engines used as concrete inputs\<close>

text \<open>
  \<open>header_only off\<close> is a file of thirteen bytes: the signature, the version and the
  table offset \<open>off\<close>. \<open>one_file bs\<close> is the file system with \<open>bs\<close> at path 0 and
  nothing else. \<open>stalled\<close> is an engine whose \<open>inflate\<close> makes no progress when it
  is given no input, which zlib reports as \<open>Z_BUF_ERROR\<close>, and rejects every other
  input as corrupt; it has memory for every vector of less than \<open>2 ^ 32\<close> bytes.
\<close>

definition header_only :: "uint64_t \<Rightarrow> byte list" where
  "header_only off = DATFILESIGNATURE @ [DATFILEVERSION] @ bytes_of_u64 off"

definition one_file :: "byte list \<Rightarrow> nat filesystem" where
  "one_file bs = (\<lambda>p. if p = 0 then Some bs else None)"

definition stalled :: "unit runtime" where
  "stalled = \<lparr>inflateInit = (Z_OK, ()),
     inflate = (\<lambda>z inp room. if inp = [] then (Z_BUF_ERROR, z, []) else (Z_DATA_ERROR, z, [])),
     chunk_mem = (\<lambda>i. 0), allocates = (\<lambda>n. n < 2 ^ 32)\<rparr>"

section \<open>Closing the archive\<close>

lemma closeArchive_open: "openFlag r \<Longrightarrow> closeArchive r = (False, r)"
  by (simp add: closeArchive_def)

lemma closeArchive_not_open:
  "\<not> openFlag r \<Longrightarrow> closeArchive r = (True, r\<lparr>archive := sclose (archive r), openFlag := False\<rparr>)"
  by (simp add: closeArchive_def)

text \<open>
  C3. The claim: closing an open archive releases the file handle and reports success,
  and a second close, or a close of an archive that is not open, reports failure.
  The code tests \<open>openFlag\<close> the other way round. A reader constructed on an archive
  that opens (here a header with an empty table behind it) has \<open>openFlag\<close> set;
  \<open>closeArchive\<close> on it answers \<open>false\<close> and leaves the stream open and the flag
  set, so every later call does the same. A reader constructed on a path that does not
  exist is not open, and \<open>closeArchive\<close> on it answers \<open>true\<close>.
\<close>

theorem closeArchive_open_archive_fails:
  "isOpen (DatArchiveReader (one_file (header_only 13)) 0)
   \<and> closeArchive (DatArchiveReader (one_file (header_only 13)) 0)
       = (False, DatArchiveReader (one_file (header_only 13)) 0)
   \<and> is_open (archive (snd (closeArchive (DatArchiveReader (one_file (header_only 13)) 0))))
   \<and> \<not> isOpen (DatArchiveReader (one_file (header_only 13)) 1)
   \<and> fst (closeArchive (DatArchiveReader (one_file (header_only 13)) 1)) = True"
  by code_simp

section \<open>A table that cannot be loaded\<close>

lemmas reader_eval = DatArchiveReader_def openArchive_def loadTable_def one_file_def
  header_only_def DATFILESIGNATURE_def DATFILEVERSION_def bytes_of_u64_def le_bytes_numeral sopen_def
  Reader_new_def ifstream_new_def fail_def good_def sread_def remaining_def overlay_def
  u8_after_def u64_after_def validateArchive_def seekg_def sclear_def isBad_def isOpen_def
  Let_def

text \<open>
  C4. The claim: when the header validates and the table cannot be loaded, the reader
  is left with an empty index and \<open>isBad()\<close> true, and every later query answers
  "not found". \<open>openArchive\<close> sets \<open>badFlag\<close> where the header does not validate,
  and returns what \<open>loadTable\<close> returns without touching the flag. For a header
  whose table offset is 0, and for one whose offset cannot be sought to
  (\<open>2 ^ 63\<close>, negative as a stream offset), \<open>openArchive\<close> answers \<open>false\<close> and the
  reader is open, not bad and empty; \<open>getFileEntry\<close> on it throws.
\<close>

theorem table_load_failure_leaves_reader_not_bad:
  "fst (openArchive (one_file (header_only 0)) Reader_new 0) = False
   \<and> isBad (DatArchiveReader (one_file (header_only 0)) 0) = False
   \<and> isOpen (DatArchiveReader (one_file (header_only 0)) 0) = True
   \<and> entries (DatArchiveReader (one_file (header_only 0)) 0) = []
   \<and> getFileEntry (DatArchiveReader (one_file (header_only 0)) 0) [0x54] = Inl out_of_range
   \<and> fst (openArchive (one_file (header_only 0x8000000000000000)) Reader_new 0) = False
   \<and> isBad (DatArchiveReader (one_file (header_only 0x8000000000000000)) 0) = False
   \<and> isOpen (DatArchiveReader (one_file (header_only 0x8000000000000000)) 0) = True"
  by (simp add: reader_eval getFileEntry_def)

theorem table_load_failure_leaves_reader_not_bad_witness:
  "isBad (DatArchiveReader (one_file (header_only 0)) 0) = False
   \<and> isOpen (DatArchiveReader (one_file (header_only 0)) 0) = True
   \<and> getFileEntry (DatArchiveReader (one_file (header_only 0)) 0) [0x54] = Inl out_of_range"
  using table_load_failure_leaves_reader_not_bad by blast

section \<open>The table as a list of bytes\<close>

text \<open>
  \<open>presents s b\<close>: the reads that follow on \<open>s\<close> see the bytes \<open>b\<close>. A stream
  that is not good presents nothing.
\<close>

definition presents :: "ifstream \<Rightarrow> byte list \<Rightarrow> bool" where
  "presents s b = (if good s then remaining s = b else b = [])"

lemma remaining_advance:
  "n \<le> length (remaining s) \<Longrightarrow> remaining (s\<lparr>gpos := gpos s + n\<rparr>) = drop n (remaining s)"
  by (simp add: remaining_def add.commute)

lemma sread_presents:
  assumes "presents s b"
  shows "fst (sread s n) = take n b \<and> presents (snd (sread s n)) (drop n b)"
proof (cases "good s")
  case True
  then have b: "remaining s = b" using assms by (simp add: presents_def)
  show ?thesis
  proof (cases "n \<le> length b")
    case le: True
    have "good (s\<lparr>gpos := gpos s + n\<rparr>)" using True by (simp add: good_def)
    then show ?thesis
      using True b le remaining_advance [of n s] by (simp add: sread_def presents_def)
  next
    case False
    then show ?thesis using True b by (simp add: sread_def presents_def good_def)
  qed
next
  case False
  then have "b = []" using assms by (simp add: presents_def)
  then show ?thesis using False by (simp add: sread_def presents_def good_def)
qed

lemma sread_presents_fst: "presents s b \<Longrightarrow> fst (sread s n) = take n b"
  by (simp add: sread_presents)

lemma sread_presents_snd: "presents s b \<Longrightarrow> presents (snd (sread s n)) (drop n b)"
  by (simp add: sread_presents)

text \<open>The entry that the seven reads of \<open>read_entry\<close> build from the bytes \<open>b\<close>.\<close>

definition entry_of_bytes :: "nat \<Rightarrow> byte list \<Rightarrow> TableEntry" where
  "entry_of_bytes L b =
     \<lparr>name = overlay (take L b) (replicate L 0),
      compressionMethod = u8_after (take 1 (drop L b)) NONE,
      fileFlags = Flags_after (take 1 (drop (L + 1) b)) \<lparr>encrypted = False\<rparr>,
      crc32 = u32_after (take 4 (drop (L + 2) b)) 0,
      originalSize = u64_after (take 8 (drop (L + 6) b)) 0,
      dataStart = u64_after (take 8 (drop (L + 14) b)) 0,
      dataEnd = u64_after (take 8 (drop (L + 22) b)) 0\<rparr>"

lemma read_entry_presents:
  assumes "presents s b"
  shows "fst (read_entry s L) = entry_of_bytes L b"
    and "presents (snd (read_entry s L)) (drop (L + 30) b)"
proof -
  define s2 where "s2 = snd (sread s L)"
  define s3 where "s3 = snd (sread s2 1)"
  define s4 where "s4 = snd (sread s3 1)"
  define s5 where "s5 = snd (sread s4 4)"
  define s6 where "s6 = snd (sread s5 8)"
  define s7 where "s7 = snd (sread s6 8)"
  define s8 where "s8 = snd (sread s7 8)"
  have p2: "presents s2 (drop L b)"
    unfolding s2_def using assms by (rule sread_presents_snd)
  have p3: "presents s3 (drop (L + 1) b)"
    unfolding s3_def using sread_presents_snd [OF p2, of 1] by (simp add: add.commute)
  have p4: "presents s4 (drop (L + 2) b)"
    unfolding s4_def using sread_presents_snd [OF p3, of 1] by (simp add: add.commute)
  have p5: "presents s5 (drop (L + 6) b)"
    unfolding s5_def using sread_presents_snd [OF p4, of 4] by (simp add: add.commute)
  have p6: "presents s6 (drop (L + 14) b)"
    unfolding s6_def using sread_presents_snd [OF p5, of 8] by (simp add: add.commute)
  have p7: "presents s7 (drop (L + 22) b)"
    unfolding s7_def using sread_presents_snd [OF p6, of 8] by (simp add: add.commute)
  have p8: "presents s8 (drop (L + 30) b)"
    unfolding s8_def using sread_presents_snd [OF p7, of 8] by (simp add: add.commute)
  have re: "read_entry s L =
     (\<lparr>name = overlay (fst (sread s L)) (replicate L 0),
       compressionMethod = u8_after (fst (sread s2 1)) NONE,
       fileFlags = Flags_after (fst (sread s3 1)) \<lparr>encrypted = False\<rparr>,
       crc32 = u32_after (fst (sread s4 4)) 0,
       originalSize = u64_after (fst (sread s5 8)) 0,
       dataStart = u64_after (fst (sread s6 8)) 0,
       dataEnd = u64_after (fst (sread s7 8)) 0\<rparr>, s8)"
    by (simp add: read_entry_def split_beta Let_def s2_def s3_def s4_def s5_def s6_def s7_def
        s8_def)
  show "fst (read_entry s L) = entry_of_bytes L b"
    by (simp add: re entry_of_bytes_def sread_presents_fst [OF assms]
        sread_presents_fst [OF p2] sread_presents_fst [OF p3] sread_presents_fst [OF p4]
        sread_presents_fst [OF p5] sread_presents_fst [OF p6] sread_presents_fst [OF p7])
  show "presents (snd (read_entry s L)) (drop (L + 30) b)"
    by (simp add: re p8)
qed

text \<open>The loop of \<open>loadTable\<close> on the bytes the stream presents.\<close>

function parse_table :: "byte list \<Rightarrow> (byte list \<times> TableEntry) list
    \<Rightarrow> (byte list \<times> TableEntry) list" where
  "parse_table b es =
     (if length b < 2 then es
      else
        let entry = entry_of_bytes (le_nat (take 2 b)) (drop 2 b)
        in parse_table (drop (le_nat (take 2 b) + 30) (drop 2 b)) (emplace (name entry) entry es))"
  by pat_completeness auto
termination
  by (relation "measure (\<lambda>(b, es). length b)") auto

declare parse_table.simps [simp del]

lemma loadTable_loop_presents:
  "presents a b \<Longrightarrow> snd (loadTable_loop a es) = parse_table b es"
proof (induction b arbitrary: a es rule: length_induct)
  case (1 b)
  have f: "fst (sread a 2) = take 2 b" and p1: "presents (snd (sread a 2)) (drop 2 b)"
    using sread_presents [OF "1.prems", of 2] by simp_all
  show ?case
  proof (cases "length b < 2")
    case True
    then have "fail (snd (sread a 2))"
      using "1.prems" by (auto simp: sread_def presents_def fail_def split: if_splits)
    then show ?thesis
      using True by (simp add: loadTable_loop.simps [of a] parse_table.simps [of b] split_beta)
  next
    case False
    then have "good a" using "1.prems" by (auto simp: presents_def split: if_splits)
    moreover have "remaining a = b" using "1.prems" \<open>good a\<close> by (simp add: presents_def)
    ultimately have nf: "\<not> fail (snd (sread a 2))"
      using False by (simp add: sread_def fail_def good_def)
    define L where "L = le_nat (take 2 b)"
    have e: "fst (read_entry (snd (sread a 2)) L) = entry_of_bytes L (drop 2 b)"
      and p8: "presents (snd (read_entry (snd (sread a 2)) L)) (drop (L + 30) (drop 2 b))"
      using read_entry_presents [OF p1, of L] by simp_all
    have shorter: "length (drop (L + 30) (drop 2 b)) < length b" using False by simp
    have "snd (loadTable_loop (snd (read_entry (snd (sread a 2)) L))
             (emplace (name (entry_of_bytes L (drop 2 b))) (entry_of_bytes L (drop 2 b)) es))
        = parse_table (drop (L + 30) (drop 2 b))
             (emplace (name (entry_of_bytes L (drop 2 b))) (entry_of_bytes L (drop 2 b)) es)"
      using "1.IH" shorter p8 by blast
    then show ?thesis
      using False nf e f
      by (simp add: loadTable_loop.simps [of a] parse_table.simps [of b] split_beta L_def Let_def)
  qed
qed

section \<open>A table that ends inside a record\<close>

text \<open>
  \<open>whole_records b\<close>: the bytes \<open>b\<close> are a sequence of complete records, each a
  two-byte name length \<open>L\<close>, \<open>L\<close> bytes of name and 30 bytes of fields.
\<close>

function whole_records :: "byte list \<Rightarrow> bool" where
  "whole_records b =
     (if b = [] then True
      else if length b < 2 \<or> length b < le_nat (take 2 b) + 32 then False
      else whole_records (drop (le_nat (take 2 b) + 32) b))"
  by pat_completeness auto
termination
  by (relation "measure length") auto

declare whole_records.simps [simp del]

lemma parse_table_Nil: "parse_table [] es = es"
  by (simp add: parse_table.simps [of "[]"])

lemma entry_of_bytes_append:
  "L + 30 \<le> length b \<Longrightarrow> entry_of_bytes L (b @ c) = entry_of_bytes L b"
  by (simp add: entry_of_bytes_def)

lemma parse_table_whole:
  "whole_records w \<Longrightarrow> parse_table (w @ p) es = parse_table p (parse_table w es)"
proof (induction w arbitrary: es rule: length_induct)
  case (1 w)
  show ?case
  proof (cases "w = []")
    case True
    then show ?thesis by (simp add: parse_table_Nil)
  next
    case False
    define L where "L = le_nat (take 2 w)"
    from False "1.prems" have len: "2 \<le> length w" "L + 32 \<le> length w"
      and rest: "whole_records (drop (L + 32) w)"
      by (simp_all add: whole_records.simps [of w] L_def split: if_splits)
    have t: "take 2 (w @ p) = take 2 w" using len by simp
    have e: "entry_of_bytes L (drop 2 (w @ p)) = entry_of_bytes L (drop 2 w)"
      using len entry_of_bytes_append [of L "drop 2 w" p] by simp
    have d: "drop (L + 30) (drop 2 (w @ p)) = drop (L + 32) w @ p"
      using len by (simp add: add.commute)
    have d': "drop (L + 30) (drop 2 w) = drop (L + 32) w"
      by (simp add: add.commute)
    have shorter: "length (drop (L + 32) w) < length w" using len by simp
    have "parse_table (w @ p) es
        = parse_table (drop (L + 32) w @ p)
            (emplace (name (entry_of_bytes L (drop 2 w))) (entry_of_bytes L (drop 2 w)) es)"
      using len t e d by (simp add: parse_table.simps [of "w @ p"] L_def Let_def)
    also have "\<dots> = parse_table p (parse_table (drop (L + 32) w)
            (emplace (name (entry_of_bytes L (drop 2 w))) (entry_of_bytes L (drop 2 w)) es))"
      using "1.IH" shorter rest by blast
    also have "parse_table (drop (L + 32) w)
            (emplace (name (entry_of_bytes L (drop 2 w))) (entry_of_bytes L (drop 2 w)) es)
        = parse_table w es"
      using len d' by (simp add: parse_table.simps [of w] L_def Let_def)
    finally show ?thesis .
  qed
qed

lemma parse_table_truncated:
  assumes "2 \<le> length p" and "length p < le_nat (take 2 p) + 32"
  shows "parse_table p es =
     emplace (name (entry_of_bytes (le_nat (take 2 p)) (drop 2 p)))
       (entry_of_bytes (le_nat (take 2 p)) (drop 2 p)) es"
proof -
  have "drop (le_nat (take 2 p) + 30) (drop 2 p) = []" using assms by simp
  then show ?thesis
    using assms by (simp add: parse_table.simps [of p] Let_def parse_table_Nil)
qed

lemma seekg_presents:
  assumes "is_open s" and "\<not> failbit s" and "\<not> badbit s" and "0 \<le> sint off"
  shows "presents (seekg s off) (drop (unat off) (content s))"
    and "\<not> fail (seekg s off)"
  using assms by (simp_all add: seekg_def presents_def good_def remaining_def fail_def Let_def)

lemma loadTable_parse:
  assumes "is_open (archive r)" and "\<not> failbit (archive r)" and "\<not> badbit (archive r)"
    and "tableOffset r \<noteq> 0" and "0 \<le> sint (tableOffset r)"
  shows "fst (loadTable r) = True"
    and "entries (snd (loadTable r))
       = parse_table (drop (unat (tableOffset r)) (content (archive r))) (entries r)"
proof -
  note sk = seekg_presents [OF assms(1,2,3,5)]
  show "fst (loadTable r) = True"
    using sk(2) assms(4) by (simp add: loadTable_def Let_def split_beta)
  show "entries (snd (loadTable r))
       = parse_table (drop (unat (tableOffset r)) (content (archive r))) (entries r)"
    using sk(2) assms(4) loadTable_loop_presents [OF sk(1), of "entries r"]
    by (simp add: loadTable_def Let_def split_beta)
qed

text \<open>The fields that no byte of the region reaches keep their default values.\<close>

lemma u32_after_Nil: "u32_after [] 0 = 0"
  by (simp add: u32_after_def overlay_def bytes_of_u32_def le_bytes_numeral)

lemma u64_after_Nil: "u64_after [] 0 = 0"
  by (simp add: u64_after_def overlay_def bytes_of_u64_def le_bytes_numeral)

lemma entry_of_bytes_defaults:
  "length b \<le> L \<Longrightarrow> compressionMethod (entry_of_bytes L b) = NONE"
  "length b \<le> L + 1 \<Longrightarrow> fileFlags (entry_of_bytes L b) = \<lparr>encrypted = False\<rparr>"
  "length b \<le> L + 2 \<Longrightarrow> crc32 (entry_of_bytes L b) = 0"
  "length b \<le> L + 6 \<Longrightarrow> originalSize (entry_of_bytes L b) = 0"
  "length b \<le> L + 14 \<Longrightarrow> dataStart (entry_of_bytes L b) = 0"
  "length b \<le> L + 22 \<Longrightarrow> dataEnd (entry_of_bytes L b) = 0"
  by (simp_all add: entry_of_bytes_def u8_after_def Flags_after_def u32_after_Nil u64_after_Nil)

text \<open>\<open>emplace\<close> on an index in key order.\<close>

lemma emplace_keys: "fst ` set (emplace k v es) = insert k (fst ` set es)"
  by (induction k v es rule: emplace.induct) (force simp: image_iff)+

lemma emplace_sorted:
  "sorted_wrt (<) (map fst es) \<Longrightarrow> sorted_wrt (<) (map fst (emplace k v es))"
proof (induction es)
  case Nil
  then show ?case by simp
next
  case (Cons p es)
  obtain k' v' where p: "p = (k', v')" by (cases p)
  have "\<And>x. x \<in> fst ` set (emplace k v es) \<Longrightarrow> \<not> k = k' \<Longrightarrow> \<not> k < k' \<Longrightarrow> k' < x"
    using Cons.prems p by (auto simp: emplace_keys)
  then show ?case using Cons p by (auto simp: image_iff)
qed

lemma emplace_map_of:
  "sorted_wrt (<) (map fst es) \<Longrightarrow>
     map_of (emplace k v es) = (case map_of es k of None \<Rightarrow> (map_of es)(k \<mapsto> v) | Some _ \<Rightarrow> map_of es)"
proof (induction es)
  case Nil
  then show ?case by simp
next
  case (Cons p es)
  obtain k' v' where p: "p = (k', v')" by (cases p)
  have notin: "k < k' \<Longrightarrow> map_of es k = None"
  proof -
    assume "k < k'"
    then have "k \<notin> fst ` set es" using Cons.prems p by (auto simp: image_iff)
    then show ?thesis by (simp add: map_of_eq_None_iff)
  qed
  show ?case
    using Cons p notin by (auto simp: fun_eq_iff split: option.splits)
qed

lemma parse_table_sorted:
  "sorted_wrt (<) (map fst es) \<Longrightarrow> sorted_wrt (<) (map fst (parse_table b es))"
proof (induction b es rule: parse_table.induct)
  case (1 b es)
  show ?case
  proof (cases "length b < 2")
    case True
    then show ?thesis using "1.prems" by (simp add: parse_table.simps [of b])
  next
    case False
    then show ?thesis
      using "1.IH" [OF False refl] emplace_sorted [OF "1.prems"]
      by (simp add: parse_table.simps [of b] Let_def)
  qed
qed

text \<open>
  C10. A table region that is a sequence of complete records followed by a record whose
  two-byte name length is there and whose end is not: \<open>loadTable\<close> answers \<open>true\<close>,
  and the index afterwards is the index after the complete records with the cut-off
  entry emplaced, as every entry is: the entry goes into the index under its name, and
  where a record read before it has the same name \<open>emplace\<close> keeps that one. The
  cut-off entry's name is the name bytes that are there, zero-filled to the length read,
  and each field that no byte of the region reaches has its default value; the last
  field, \<open>dataEnd\<close>, always falls short of its eight bytes.
\<close>

theorem loadTable_accepts_truncated_record:
  assumes "is_open (archive r)" and "\<not> failbit (archive r)" and "\<not> badbit (archive r)"
    and "tableOffset r \<noteq> 0" and "0 \<le> sint (tableOffset r)"
    and "sorted_wrt (<) (map fst (entries r))"
    and "drop (unat (tableOffset r)) (content (archive r)) = whole @ part"
    and "whole_records whole"
    and "2 \<le> length part" and "length part < le_nat (take 2 part) + 32"
    and "L = le_nat (take 2 part)" and "pe = entry_of_bytes L (drop 2 part)"
  shows "fst (loadTable r) = True
    \<and> entries (snd (loadTable r)) = emplace (name pe) pe (parse_table whole (entries r))
    \<and> contains (snd (loadTable r)) (name pe)
    \<and> (map_of (parse_table whole (entries r)) (name pe) = None
         \<longrightarrow> map_of (entries (snd (loadTable r))) (name pe) = Some pe)
    \<and> name pe = take L (drop 2 part) @ replicate (L - (length part - 2)) 0
    \<and> (length part \<le> L + 2 \<longrightarrow> compressionMethod pe = NONE)
    \<and> (length part \<le> L + 3 \<longrightarrow> fileFlags pe = \<lparr>encrypted = False\<rparr>)
    \<and> (length part \<le> L + 4 \<longrightarrow> crc32 pe = 0)
    \<and> (length part \<le> L + 8 \<longrightarrow> originalSize pe = 0)
    \<and> (length part \<le> L + 16 \<longrightarrow> dataStart pe = 0)
    \<and> (length part \<le> L + 24 \<longrightarrow> dataEnd pe = 0)
    \<and> length (take 8 (drop (L + 22) (drop 2 part))) < 8"
proof -
  have ok: "fst (loadTable r) = True"
    using loadTable_parse(1) [OF assms(1-5)] .
  have es: "entries (snd (loadTable r)) = emplace (name pe) pe (parse_table whole (entries r))"
    using loadTable_parse(2) [OF assms(1-5)] assms(7) parse_table_whole [OF assms(8)]
      parse_table_truncated [OF assms(9,10)] assms(11,12)
    by simp
  have srt: "sorted_wrt (<) (map fst (parse_table whole (entries r)))"
    using parse_table_sorted [OF assms(6)] .
  have mp: "map_of (entries (snd (loadTable r)))
      = (case map_of (parse_table whole (entries r)) (name pe) of
           None \<Rightarrow> (map_of (parse_table whole (entries r)))(name pe \<mapsto> pe)
         | Some _ \<Rightarrow> map_of (parse_table whole (entries r)))"
    using emplace_map_of [OF srt] es by simp
  have c: "contains (snd (loadTable r)) (name pe)"
    by (simp add: contains_def mp split: option.splits)
  have nm: "name pe = take L (drop 2 part) @ replicate (L - (length part - 2)) 0"
    using assms(9) by (simp add: assms(12) entry_of_bytes_def overlay_def min_def)
  have dflt: "length part \<le> L + 2 \<longrightarrow> compressionMethod pe = NONE"
    "length part \<le> L + 3 \<longrightarrow> fileFlags pe = \<lparr>encrypted = False\<rparr>"
    "length part \<le> L + 4 \<longrightarrow> crc32 pe = 0"
    "length part \<le> L + 8 \<longrightarrow> originalSize pe = 0"
    "length part \<le> L + 16 \<longrightarrow> dataStart pe = 0"
    "length part \<le> L + 24 \<longrightarrow> dataEnd pe = 0"
    using assms(9) by (simp_all add: assms(12) entry_of_bytes_defaults)
  have short: "length (take 8 (drop (L + 22) (drop 2 part))) < 8"
    using assms(9,10,11) by simp
  show ?thesis
    using ok es c mp nm dflt short by simp
qed

text \<open>
  A reader about to load its table: the stream stands behind the header of a file whose
  table holds one complete record, named \<open>A\<close>, and then three bytes, the name length 2
  and the byte \<open>B\<close>.
\<close>

definition record_A :: "byte list" where
  "record_A = [1, 0, 0x41, 0, 0, 0x11, 0x22, 0x33, 0x44,
     5, 0, 0, 0, 0, 0, 0, 0, 13, 0, 0, 0, 0, 0, 0, 0, 18, 0, 0, 0, 0, 0, 0, 0]"

definition cut_off_reader :: Reader where
  "cut_off_reader =
     \<lparr>archive = \<lparr>is_open = True, content = header_only 13 @ record_A @ [2, 0, 0x42],
        gpos = 13, eofbit = False, failbit = False, badbit = False\<rparr>,
      archiveVersion = 1, tableOffset = 13, entries = [], openFlag = True, badFlag = False\<rparr>"

theorem loadTable_accepts_truncated_record_witness:
  "is_open (archive cut_off_reader) \<and> \<not> failbit (archive cut_off_reader)
   \<and> \<not> badbit (archive cut_off_reader) \<and> tableOffset cut_off_reader \<noteq> 0
   \<and> 0 \<le> sint (tableOffset cut_off_reader)
   \<and> sorted_wrt (<) (map fst (entries cut_off_reader))
   \<and> drop (unat (tableOffset cut_off_reader)) (content (archive cut_off_reader))
       = record_A @ [2, 0, 0x42]
   \<and> whole_records record_A
   \<and> 2 \<le> length [2, 0, 0x42 :: byte]
   \<and> length [2, 0, 0x42 :: byte] < le_nat (take 2 [2, 0, 0x42]) + 32
   \<and> fst (loadTable cut_off_reader) = True
   \<and> entries (snd (loadTable cut_off_reader))
       = emplace [0x42, 0] (entry_of_bytes 2 [0x42]) (parse_table record_A [])
   \<and> contains (snd (loadTable cut_off_reader)) [0x42, 0]
   \<and> compressionMethod (entry_of_bytes 2 [0x42]) = NONE
   \<and> crc32 (entry_of_bytes 2 [0x42]) = 0
   \<and> originalSize (entry_of_bytes 2 [0x42]) = 0
   \<and> dataStart (entry_of_bytes 2 [0x42]) = 0
   \<and> dataEnd (entry_of_bytes 2 [0x42]) = 0"
proof -
  have h1: "is_open (archive cut_off_reader)" by (simp add: cut_off_reader_def)
  have h2: "\<not> failbit (archive cut_off_reader)" by (simp add: cut_off_reader_def)
  have h3: "\<not> badbit (archive cut_off_reader)" by (simp add: cut_off_reader_def)
  have h4: "tableOffset cut_off_reader \<noteq> 0" by (simp add: cut_off_reader_def)
  have h5: "0 \<le> sint (tableOffset cut_off_reader)" by (simp add: cut_off_reader_def)
  have h6: "sorted_wrt (<) (map fst (entries cut_off_reader))" by (simp add: cut_off_reader_def)
  have h7: "drop (unat (tableOffset cut_off_reader)) (content (archive cut_off_reader))
       = record_A @ [2, 0, 0x42]"
    by (simp add: cut_off_reader_def header_only_def DATFILESIGNATURE_def bytes_of_u64_def le_bytes_numeral)
  have h8: "whole_records record_A"
    by (simp add: record_A_def whole_records.simps)
  have h9: "2 \<le> length [2, 0, 0x42 :: byte]" by simp
  have h10: "length [2, 0, 0x42 :: byte] < le_nat (take 2 [2, 0, 0x42]) + 32" by simp
  have L: "le_nat (take 2 [2, 0, 0x42 :: byte]) = 2" by simp
  have es: "entries cut_off_reader = []" by (simp add: cut_off_reader_def)
  have nm: "name (entry_of_bytes 2 [0x42]) = [0x42, 0]"
    by (simp add: entry_of_bytes_def overlay_def)
  show ?thesis
    using loadTable_accepts_truncated_record [OF h1 h2 h3 h4 h5 h6 h7 h8 h9 h10 refl refl]
      h1 h2 h3 h4 h5 h6 h7 h8 L nm es
    by simp
qed

section \<open>The loop of zlibExtractFile\<close>

text \<open>
  \<open>zlib_init\<close> is the state in which \<open>zlibExtractFile\<close> enters its loop, and
  \<open>zlib_reaches\<close> relates it to the state at the start of every later pass.
\<close>

definition zlib_init :: "'z runtime \<Rightarrow> Reader \<Rightarrow> TableEntry \<Rightarrow> 'z zloop" where
  "zlib_init E r entry =
     \<lparr>zl_reader = r\<lparr>archive := seekg (archive r) (dataStart entry)\<rparr>,
      zl_strm = snd (inflateInit E), zl_avail_out = uInt (originalSize entry),
      zl_out = [], zl_in = chunk_mem E, zl_crc = 0\<rparr>"

inductive zlib_reaches :: "'z runtime \<Rightarrow> TableEntry \<Rightarrow> byte list \<Rightarrow> bool
    \<Rightarrow> 'z zloop \<Rightarrow> 'z zloop \<Rightarrow> bool"
  for E entry buffer validateCrc st0 where
  first_pass: "zlib_reaches E entry buffer validateCrc st0 st0"
| next_pass: "zlib_reaches E entry buffer validateCrc st0 st
    \<Longrightarrow> zlib_pass E entry buffer validateCrc st = Inr st'
    \<Longrightarrow> zlib_reaches E entry buffer validateCrc st0 st'"

lemma zlibExtractFile_loop:
  "fst (inflateInit E) = Z_OK \<Longrightarrow>
     zlibExtractFile E r entry buffer v = zlib_loop E entry buffer v (zlib_init E r entry)"
  by (simp add: zlibExtractFile_def zlib_init_def split_beta Let_def)

lemma zlibExtractFile_no_init:
  "fst (inflateInit E) \<noteq> Z_OK \<Longrightarrow>
     zlibExtractFile E r entry buffer v
       = Some (Returns (0, r\<lparr>archive := seekg (archive r) (dataStart entry)\<rparr>, buffer))"
  by (simp add: zlibExtractFile_def split_beta Let_def)

lemma zlib_loop_reaches:
  "zlib_reaches E entry buffer v st0 st \<Longrightarrow>
     zlib_loop E entry buffer v st0 = zlib_loop E entry buffer v st"
proof (induction rule: zlib_reaches.induct)
  case first_pass
  show ?case by simp
next
  case (next_pass st st')
  have "zlib_loop E entry buffer v st = zlib_loop E entry buffer v st'"
    using next_pass.hyps(2) by (subst zlib_loop.simps) simp
  then show ?case using next_pass.IH by simp
qed

lemma zlib_pass_room:
  assumes "zlib_pass E entry buffer v st = Inr st'"
  shows "length (zl_out st') + zl_avail_out st' = length (zl_out st) + zl_avail_out st"
  using assms
  by (auto simp: zlib_pass_def Let_def split_beta min_def split: if_splits)

lemma zlib_reaches_room:
  "zlib_reaches E entry buffer v st0 st \<Longrightarrow>
     length (zl_out st) + zl_avail_out st = length (zl_out st0) + zl_avail_out st0"
  by (induction rule: zlib_reaches.induct) (simp_all add: zlib_pass_room)

lemma zlib_pass_inflate_error:
  assumes "zlib_fetch entry (archive (zl_reader st)) = (got, a3, avail_in)"
    and "length got \<le> CHUNKSIZE" and "avail_in \<le> CHUNKSIZE" and "\<not> bad a3"
    and "inflate E (zl_strm st) (map (fill got (zl_in st)) [0..<avail_in]) (zl_avail_out st)
           = (rc, z, produced)"
    and "is_inflate_error rc"
    and "length (zl_out st) + zl_avail_out st \<le> length buffer"
  shows "zlib_pass E entry buffer v st
    = Inl (Returns (0, (zl_reader st)\<lparr>archive := a3, badFlag := False\<rparr>,
        overlay (zl_out st @ take (zl_avail_out st) produced) buffer))"
proof -
  have "length (zl_out st @ take (zl_avail_out st) produced) \<le> length buffer"
    using assms(7) by simp
  then show ?thesis
    using assms(1-6) by (simp add: zlib_pass_def Let_def)
qed

lemma zlib_pass_Inr_badFlag:
  "zlib_pass E entry buffer v st = Inr st' \<Longrightarrow> badFlag (zl_reader st') = badFlag (zl_reader st)"
  by (auto simp: zlib_pass_def Let_def split_beta split: if_splits)

lemma zlib_pass_Inl_badFlag:
  assumes "zlib_pass E entry buffer v st = Inl (Returns (n, r', b))" and "badFlag r'"
  shows "badFlag (zl_reader st) \<or> (bad (archive r') \<and> n = 0)"
  using assms by (auto simp: zlib_pass_def Let_def split_beta split: if_splits)

lemma zlib_loop_badFlag:
  assumes "zlib_loop E entry buffer v st = Some y"
  shows "\<forall>n r' b. y = Returns (n, r', b) \<longrightarrow> badFlag r'
           \<longrightarrow> badFlag (zl_reader st) \<or> (bad (archive r') \<and> n = 0)"
proof (rule zlib_loop.raw_induct [where P = "\<lambda>E entry buffer v st y.
    \<forall>n r' b. y = Returns (n, r', b) \<longrightarrow> badFlag r'
       \<longrightarrow> badFlag (zl_reader st) \<or> (bad (archive r') \<and> n = 0)", OF _ assms])
  fix loop and E :: "'z runtime" and entry buffer v and st :: "'z zloop" and y
  assume IH: "\<And>E entry buffer v st y. loop E entry buffer v st = Some y \<Longrightarrow>
      \<forall>n r' b. y = Returns (n, r', b) \<longrightarrow> badFlag r'
         \<longrightarrow> badFlag (zl_reader st) \<or> (bad (archive r') \<and> n = 0)"
    and step: "(case zlib_pass E entry buffer v st of Inl res \<Rightarrow> Some res
                | Inr st' \<Rightarrow> loop E entry buffer v st') = Some y"
  show "\<forall>n r' b. y = Returns (n, r', b) \<longrightarrow> badFlag r'
         \<longrightarrow> badFlag (zl_reader st) \<or> (bad (archive r') \<and> n = 0)"
  proof (cases "zlib_pass E entry buffer v st")
    case (Inl res)
    then have "y = res" using step by simp
    then show ?thesis using Inl zlib_pass_Inl_badFlag by blast
  next
    case (Inr st')
    then have "loop E entry buffer v st' = Some y" using step by simp
    then show ?thesis using IH zlib_pass_Inr_badFlag [OF Inr] by metis
  qed
qed

lemma zlibExtractFile_badFlag:
  assumes "zlibExtractFile E r entry buffer v = Some (Returns (n, r', b))" and "badFlag r'"
  shows "badFlag r \<or> (bad (archive r') \<and> n = 0)"
proof (cases "fst (inflateInit E) = Z_OK")
  case True
  then have "zlib_loop E entry buffer v (zlib_init E r entry) = Some (Returns (n, r', b))"
    using assms(1) zlibExtractFile_loop by metis
  from zlib_loop_badFlag [OF this] assms(2) show ?thesis by (simp add: zlib_init_def)
next
  case False
  then show ?thesis using assms zlibExtractFile_no_init [OF False, of r entry buffer v] by auto
qed

text \<open>
  C8. Whenever \<open>inflate\<close> answers \<open>Z_NEED_DICT\<close>, \<open>Z_DATA_ERROR\<close> or
  \<open>Z_MEM_ERROR\<close> in a pass of the loop of \<open>zlibExtractFile\<close>, the call returns 0 and
  the reader's bad flag is false afterwards, whatever it was before, so \<open>isBad()\<close>
  answers false. And a call of \<open>zlibExtractFile\<close> on a reader that is not bad returns
  with the bad flag set only when \<open>archive.bad()\<close> holds, and then it returns 0. The
  buffer has room for the \<open>avail_out\<close> bytes the stream is given, as \<open>getFile\<close>'s has.
\<close>

theorem zlibExtractFile_inflate_error_clears_badFlag:
  "(fst (inflateInit E) = Z_OK
      \<and> zlib_reaches E entry buffer v (zlib_init E r entry) st
      \<and> zlib_fetch entry (archive (zl_reader st)) = (got, a3, avail_in)
      \<and> length got \<le> CHUNKSIZE \<and> avail_in \<le> CHUNKSIZE \<and> \<not> bad a3
      \<and> inflate E (zl_strm st) (map (fill got (zl_in st)) [0..<avail_in]) (zl_avail_out st)
           = (rc, z, produced)
      \<and> is_inflate_error rc
      \<and> uInt (originalSize entry) \<le> length buffer
    \<longrightarrow> (\<exists>r' b. zlibExtractFile E r entry buffer v = Some (Returns (0, r', b))
          \<and> badFlag r' = False \<and> isBad r' = False))
   \<and> (zlibExtractFile E r2 entry2 buffer2 v2 = Some (Returns (n, r2', b2))
      \<and> \<not> isBad r2 \<and> isBad r2'
    \<longrightarrow> bad (archive r2') \<and> n = 0)"
proof (intro conjI impI)
  assume h: "fst (inflateInit E) = Z_OK
      \<and> zlib_reaches E entry buffer v (zlib_init E r entry) st
      \<and> zlib_fetch entry (archive (zl_reader st)) = (got, a3, avail_in)
      \<and> length got \<le> CHUNKSIZE \<and> avail_in \<le> CHUNKSIZE \<and> \<not> bad a3
      \<and> inflate E (zl_strm st) (map (fill got (zl_in st)) [0..<avail_in]) (zl_avail_out st)
           = (rc, z, produced)
      \<and> is_inflate_error rc
      \<and> uInt (originalSize entry) \<le> length buffer"
  then have reach: "zlib_reaches E entry buffer v (zlib_init E r entry) st" by simp
  have room: "length (zl_out st) + zl_avail_out st \<le> length buffer"
    using zlib_reaches_room [OF reach] h by (simp add: zlib_init_def)
  have pass: "zlib_pass E entry buffer v st
    = Inl (Returns (0, (zl_reader st)\<lparr>archive := a3, badFlag := False\<rparr>,
        overlay (zl_out st @ take (zl_avail_out st) produced) buffer))"
    using zlib_pass_inflate_error [of entry st got a3 avail_in E rc z produced buffer v] h room
    by simp
  have "zlibExtractFile E r entry buffer v = zlib_loop E entry buffer v st"
    using h zlibExtractFile_loop [of E r entry buffer v] zlib_loop_reaches [OF reach] by simp
  also have "\<dots> = Some (Returns (0, (zl_reader st)\<lparr>archive := a3, badFlag := False\<rparr>,
        overlay (zl_out st @ take (zl_avail_out st) produced) buffer))"
    using pass by (subst zlib_loop.simps) simp
  finally show "\<exists>r' b. zlibExtractFile E r entry buffer v = Some (Returns (0, r', b))
          \<and> badFlag r' = False \<and> isBad r' = False"
    by (simp add: isBad_def)
next
  assume h: "zlibExtractFile E r2 entry2 buffer2 v2 = Some (Returns (n, r2', b2))
      \<and> \<not> isBad r2 \<and> isBad r2'"
  then show "bad (archive r2')" and "n = 0"
    using zlibExtractFile_badFlag [of E r2 entry2 buffer2 v2 n r2' b2]
    by (simp_all add: isBad_def)
qed
text \<open>
  A reader on a file that holds the header and one byte of data, with the stream's
  \<open>badbit\<close> and the reader's bad flag as given, and the entry that points at the byte
  as a ZLIB payload.
\<close>

definition sample_entry :: TableEntry where
  "sample_entry = \<lparr>name = [0x41], compressionMethod = ZLIB, fileFlags = \<lparr>encrypted = False\<rparr>,
     crc32 = 0, originalSize = 1, dataStart = 13, dataEnd = 14\<rparr>"

definition sample_stream :: "nat \<Rightarrow> bool \<Rightarrow> ifstream" where
  "sample_stream pos bb = \<lparr>is_open = True, content = header_only 14 @ [9], gpos = pos,
     eofbit = False, failbit = False, badbit = bb\<rparr>"

definition sample_reader :: "bool \<Rightarrow> bool \<Rightarrow> Reader" where
  "sample_reader bb bf = \<lparr>archive = sample_stream 0 bb, archiveVersion = 1, tableOffset = 14,
     entries = [([0x41], sample_entry)], openFlag = True, badFlag = bf\<rparr>"

lemmas sample_eval = sample_entry_def sample_stream_def sample_reader_def stalled_def
  zlib_init_def zlib_fetch_def zlib_pass_def seekg_def tellg_def sread64_def sread_def
  remaining_def good_def bad_def uInt_def CHUNKSIZE_def header_only_def
  DATFILESIGNATURE_def DATFILEVERSION_def bytes_of_u64_def le_bytes_numeral fill_def is_inflate_error_def
  overlay_def Let_def

theorem zlibExtractFile_inflate_error_clears_badFlag_witness:
  "fst (inflateInit stalled) = Z_OK
   \<and> zlib_reaches stalled sample_entry [0] True
        (zlib_init stalled (sample_reader False True) sample_entry)
        (zlib_init stalled (sample_reader False True) sample_entry)
   \<and> zlib_fetch sample_entry
        (archive (zl_reader (zlib_init stalled (sample_reader False True) sample_entry)))
       = ([9], sample_stream 14 False, 1)
   \<and> length [9 :: byte] \<le> CHUNKSIZE \<and> 1 \<le> CHUNKSIZE \<and> \<not> bad (sample_stream 14 False)
   \<and> inflate stalled (zl_strm (zlib_init stalled (sample_reader False True) sample_entry))
        (map (fill [9] (zl_in (zlib_init stalled (sample_reader False True) sample_entry))) [0..<1])
        (zl_avail_out (zlib_init stalled (sample_reader False True) sample_entry))
       = (Z_DATA_ERROR, (), [])
   \<and> is_inflate_error Z_DATA_ERROR
   \<and> uInt (originalSize sample_entry) \<le> length [0 :: byte]
   \<and> isBad (sample_reader False True)
   \<and> (\<exists>r' b. zlibExtractFile stalled (sample_reader False True) sample_entry [0] True
                = Some (Returns (0, r', b)) \<and> badFlag r' = False \<and> isBad r' = False)
   \<and> zlibExtractFile stalled (sample_reader True False) sample_entry [0] True
       = Some (Returns (0, (sample_reader True False)
            \<lparr>archive := (sample_stream 0 True)\<lparr>failbit := True\<rparr>, badFlag := True\<rparr>, [0]))
   \<and> \<not> isBad (sample_reader True False)
   \<and> isBad ((sample_reader True False)
            \<lparr>archive := (sample_stream 0 True)\<lparr>failbit := True\<rparr>, badFlag := True\<rparr>)
   \<and> bad (archive ((sample_reader True False)
            \<lparr>archive := (sample_stream 0 True)\<lparr>failbit := True\<rparr>, badFlag := True\<rparr>))"
proof -
  let ?st = "zlib_init stalled (sample_reader False True) sample_entry"
  let ?r2' = "(sample_reader True False)
            \<lparr>archive := (sample_stream 0 True)\<lparr>failbit := True\<rparr>, badFlag := True\<rparr>"
  have a1: "fst (inflateInit stalled) = Z_OK" by (simp add: stalled_def)
  have a2: "zlib_reaches stalled sample_entry [0] True ?st ?st" by (rule first_pass)
  have a3: "zlib_fetch sample_entry (archive (zl_reader ?st)) = ([9], sample_stream 14 False, 1)"
    by (simp add: sample_eval)
  have a4: "length [9 :: byte] \<le> CHUNKSIZE" "1 \<le> CHUNKSIZE" "\<not> bad (sample_stream 14 False)"
    by (simp_all add: sample_eval)
  have a5: "inflate stalled (zl_strm ?st) (map (fill [9] (zl_in ?st)) [0..<1]) (zl_avail_out ?st)
       = (Z_DATA_ERROR, (), [])"
    by (simp add: sample_eval)
  have a6: "is_inflate_error Z_DATA_ERROR" by (simp add: is_inflate_error_def)
  have a7: "uInt (originalSize sample_entry) \<le> length [0 :: byte]" by (simp add: sample_eval)
  have a8: "isBad (sample_reader False True)" by (simp add: isBad_def sample_reader_def)
  have p: "zlib_pass stalled sample_entry [0] True
        (zlib_init stalled (sample_reader True False) sample_entry)
       = Inl (Returns (0, ?r2', [0]))"
    by (simp add: sample_eval)
  have b1: "zlibExtractFile stalled (sample_reader True False) sample_entry [0] True
       = Some (Returns (0, ?r2', [0]))"
    by (simp add: zlibExtractFile_loop a1 p
        zlib_loop.simps [of stalled sample_entry "[0]" True
          "zlib_init stalled (sample_reader True False) sample_entry"])
  have b2: "\<not> isBad (sample_reader True False)" by (simp add: isBad_def sample_reader_def)
  have b3: "isBad ?r2'" by (simp add: isBad_def)
  have b4: "bad (archive ?r2')" by (simp add: bad_def sample_stream_def)
  show ?thesis
    using zlibExtractFile_inflate_error_clears_badFlag [of stalled sample_entry "[0]" True
        "sample_reader False True" ?st "[9]" "sample_stream 14 False" 1 Z_DATA_ERROR "()" "[]"
        "sample_reader True False" sample_entry "[0]" True 0 ?r2' "[0]"]
      a1 a2 a3 a4 a5 a6 a7 a8 b1 b2 b3 b4
    by blast
qed

section \<open>What getFile returns\<close>

lemma crc_byte_unfold:
  "crc_byte c b = crc_shift (crc_shift (crc_shift (crc_shift
     (crc_shift (crc_shift (crc_shift (crc_shift (c XOR ucast b))))))))"
  by (simp add: crc_byte_def eval_nat_numeral)

text \<open>The check value of CRC-32: the checksum of the ASCII digits 1 to 9.\<close>

lemma zcrc32_check_value:
  "zcrc32 0 [0x31, 0x32, 0x33, 0x34, 0x35, 0x36, 0x37, 0x38, 0x39] = 0xCBF43926"
  by (simp add: zcrc32_def crc_byte_unfold crc_shift_def)

lemma zcrc32_Nil: "zcrc32 c [] = c"
  by (simp add: zcrc32_def)

lemma zcrc32_append: "zcrc32 (zcrc32 c xs) ys = zcrc32 c (xs @ ys)"
  by (simp add: zcrc32_def)

lemma uInt_le: "uInt n \<le> unat n"
  by (simp add: uInt_def unsigned_ucast_eq)

lemma length_overlay: "length got \<le> length old \<Longrightarrow> length (overlay got old) = length old"
  by (simp add: overlay_def)

lemma getFile_closed:
  "\<not> openFlag r \<or> badFlag r \<or> \<not> contains r nm \<Longrightarrow> getFile E r nm = Some (Returns ([], r))"
  by (auto simp: getFile_def)

lemma getFile_present:
  assumes "openFlag r" and "\<not> badFlag r" and "map_of (entries r) nm = Some e"
    and "unat (originalSize e) \<le> vector_max_size" and "allocates E (unat (originalSize e))"
  shows "getFile E r nm =
     (case getFileFromEntry E r e (replicate (unat (originalSize e)) 0) True of
        None \<Rightarrow> None
      | Some Overrun \<Rightarrow> Some Overrun
      | Some (Throws x) \<Rightarrow> Some (Throws x)
      | Some (Returns (n, r', dest)) \<Rightarrow> Some (Returns (if n \<noteq> 0 then dest else [], r')))"
  using assms by (simp add: getFile_def contains_def getFileEntry_def)

lemma extractFile_length:
  "extractFile r e buf v = Returns (n, r', d) \<Longrightarrow> length d = length buf"
  by (auto simp: extractFile_def Let_def split_beta length_overlay split: if_splits)

lemma extractFile_crc_mismatch:
  assumes "extractFile r e buf True = Returns (n, r', d)"
    and "zcrc32 0 (take (uInt (sizeInArchive e)) d) \<noteq> crc32 e"
  shows "n = 0"
  using assms by (auto simp: extractFile_def Let_def split_beta split: if_splits)

lemma zlib_pass_Inr_out:
  "zlib_pass E entry buffer v st = Inr st' \<Longrightarrow> length (zl_out st') \<le> length buffer"
  by (auto simp: zlib_pass_def Let_def split_beta split: if_splits)

lemma zlib_pass_Inl_length:
  assumes "zlib_pass E entry buffer v st = Inl (Returns (n, r', d))"
    and "length (zl_out st) \<le> length buffer"
  shows "length d = length buffer"
  using assms
  by (auto simp: zlib_pass_def Let_def split_beta length_overlay split: if_splits)

lemma zlib_loop_length:
  assumes "zlib_loop E entry buffer v st = Some y"
  shows "length (zl_out st) \<le> length buffer
           \<longrightarrow> (\<forall>n r' d. y = Returns (n, r', d) \<longrightarrow> length d = length buffer)"
proof (rule zlib_loop.raw_induct [where P = "\<lambda>E entry buffer v st y.
    length (zl_out st) \<le> length buffer
      \<longrightarrow> (\<forall>n r' d. y = Returns (n, r', d) \<longrightarrow> length d = length buffer)", OF _ assms])
  fix loop and E :: "'z runtime" and entry buffer v and st :: "'z zloop" and y
  assume IH: "\<And>E entry buffer v st y. loop E entry buffer v st = Some y \<Longrightarrow>
      length (zl_out st) \<le> length buffer
        \<longrightarrow> (\<forall>n r' d. y = Returns (n, r', d) \<longrightarrow> length d = length buffer)"
    and step: "(case zlib_pass E entry buffer v st of Inl res \<Rightarrow> Some res
                | Inr st' \<Rightarrow> loop E entry buffer v st') = Some y"
  show "length (zl_out st) \<le> length buffer
        \<longrightarrow> (\<forall>n r' d. y = Returns (n, r', d) \<longrightarrow> length d = length buffer)"
  proof (cases "zlib_pass E entry buffer v st")
    case (Inl res)
    then have "y = res" using step by simp
    then show ?thesis using Inl zlib_pass_Inl_length by blast
  next
    case (Inr st')
    then have "loop E entry buffer v st' = Some y" using step by simp
    then show ?thesis using IH zlib_pass_Inr_out [OF Inr] by blast
  qed
qed

lemma zlibExtractFile_length:
  assumes "zlibExtractFile E r e buf v = Some (Returns (n, r', d))"
  shows "length d = length buf"
proof (cases "fst (inflateInit E) = Z_OK")
  case True
  then have "zlib_loop E e buf v (zlib_init E r e) = Some (Returns (n, r', d))"
    using assms zlibExtractFile_loop by metis
  from zlib_loop_length [OF this] show ?thesis by (simp add: zlib_init_def)
next
  case False
  then show ?thesis using assms zlibExtractFile_no_init [OF False, of r e buf v] by auto
qed

lemma getFileFromEntry_length:
  "getFileFromEntry E r e buf v = Some (Returns (n, r', d)) \<Longrightarrow> length d = length buf"
  by (auto simp: getFileFromEntry_def extractFile_length zlibExtractFile_length
      split: if_splits)

lemma getFile_length:
  assumes "getFile E r nm = Some (Returns (res, r'))"
  shows "res = [] \<or> (\<exists>e. map_of (entries r) nm = Some e \<and> length res = unat (originalSize e))"
proof (cases "\<not> openFlag r \<or> badFlag r \<or> \<not> contains r nm")
  case True
  then show ?thesis using assms getFile_closed [OF True, of E] by simp
next
  case False
  then obtain e where e: "map_of (entries r) nm = Some e"
    by (auto simp: contains_def)
  show ?thesis
  proof (cases "unat (originalSize e) \<le> vector_max_size \<and> allocates E (unat (originalSize e))")
    case True
    have "getFile E r nm =
       (case getFileFromEntry E r e (replicate (unat (originalSize e)) 0) True of
          None \<Rightarrow> None
        | Some Overrun \<Rightarrow> Some Overrun
        | Some (Throws x) \<Rightarrow> Some (Throws x)
        | Some (Returns (n, r', dest)) \<Rightarrow> Some (Returns (if n \<noteq> 0 then dest else [], r')))"
      using getFile_present [of r nm e E] False e True by simp
    then obtain n d where
      g: "getFileFromEntry E r e (replicate (unat (originalSize e)) 0) True
            = Some (Returns (n, r', d))"
      and res: "res = (if n \<noteq> 0 then d else [])"
      using assms by (auto split: option.splits outcome.splits)
    have "length d = unat (originalSize e)"
      using getFileFromEntry_length [OF g] by simp
    then show ?thesis using res e by auto
  next
    case big: False
    then show ?thesis
      using assms False e
      by (auto simp: getFile_def getFileEntry_def contains_def not_le split: if_splits)
  qed
qed

lemma zlib_pass_crc_mismatch:
  assumes "zlib_fetch entry (archive (zl_reader st)) = (got, a3, avail_in)"
    and "length got \<le> CHUNKSIZE" and "avail_in \<le> CHUNKSIZE" and "\<not> bad a3"
    and "inflate E (zl_strm st) (map (fill got (zl_in st)) [0..<avail_in]) (zl_avail_out st)
           = (Z_STREAM_END, z, produced)"
    and "zcrc32 (zl_crc st) (map (fill got (zl_in st)) [0..<avail_in]) \<noteq> crc32 entry"
    and "length (zl_out st) + zl_avail_out st \<le> length buffer"
  shows "zlib_pass E entry buffer True st
    = Inl (Returns (0, (zl_reader st)\<lparr>archive := a3\<rparr>,
        overlay (zl_out st @ take (zl_avail_out st) produced) buffer))"
proof -
  have "length (zl_out st @ take (zl_avail_out st) produced) \<le> length buffer"
    using assms(7) by simp
  then show ?thesis
    using assms(1-6) by (simp add: zlib_pass_def Let_def is_inflate_error_def)
qed

text \<open>A pass of the loop that ends where it started is a loop that never ends.\<close>

lemma zlib_loop_stuck:
  assumes "zlib_pass E entry buffer v st = Inr st"
  shows "zlib_loop E entry buffer v st = None"
proof (rule ccontr)
  assume "zlib_loop E entry buffer v st \<noteq> None"
  then obtain y where y: "zlib_loop E entry buffer v st = Some y" by auto
  have "\<not> (E = E \<and> entry = entry \<and> buffer = buffer \<and> v = v \<and> st = st)"
  proof (rule zlib_loop.raw_induct [where P = "\<lambda>E' entry' buffer' v' st' y.
      \<not> (E' = E \<and> entry' = entry \<and> buffer' = buffer \<and> v' = v \<and> st' = st)", OF _ y])
    fix loop and E' :: "'a runtime" and entry' buffer' v' and st' :: "'a zloop" and y'
    assume IH: "\<And>E' entry' buffer' v' st' y. loop E' entry' buffer' v' st' = Some y \<Longrightarrow>
        \<not> (E' = E \<and> entry' = entry \<and> buffer' = buffer \<and> v' = v \<and> st' = st)"
      and step: "(case zlib_pass E' entry' buffer' v' st' of Inl res \<Rightarrow> Some res
                  | Inr s \<Rightarrow> loop E' entry' buffer' v' s) = Some y'"
    show "\<not> (E' = E \<and> entry' = entry \<and> buffer' = buffer \<and> v' = v \<and> st' = st)"
    proof
      assume eq: "E' = E \<and> entry' = entry \<and> buffer' = buffer \<and> v' = v \<and> st' = st"
      then have "loop E entry buffer v st = Some y'" using step assms by simp
      from IH [OF this] show False by simp
    qed
  qed
  then show False by simp
qed
text \<open>
  C7. The claim: for every reader and name, \<open>getFile\<close> returns the decoded content, or
  an empty result where the archive is not open or is bad, the name is absent or the
  extraction fails. The loop of \<open>zlibExtractFile\<close> has an exit for \<open>Z_STREAM_END\<close>
  and one for \<open>Z_NEED_DICT\<close>, \<open>Z_DATA_ERROR\<close> and \<open>Z_MEM_ERROR\<close>, and none for
  the other answers of \<open>inflate\<close>. An archive whose table names a ZLIB entry of one
  byte with an empty data range opens without error; each pass of the loop then reads
  no bytes and hands \<open>inflate\<close> no input, \<open>inflate\<close> can make no progress and says
  \<open>Z_BUF_ERROR\<close>, and the pass ends in the state it began in: \<open>getFile\<close> does not
  return, where the claim has it return an empty result.
\<close>

definition record_stalled :: "byte list" where
  "record_stalled = [1, 0, 0x41, 1, 0, 0, 0, 0, 0,
     1, 0, 0, 0, 0, 0, 0, 0, 13, 0, 0, 0, 0, 0, 0, 0, 13, 0, 0, 0, 0, 0, 0, 0]"

lemma DatArchiveReader_record_stalled:
  "DatArchiveReader (one_file (header_only 13 @ record_stalled)) 0 =
     \<lparr>archive = \<lparr>is_open = True, content = header_only 13 @ record_stalled, gpos = 0,
        eofbit = False, failbit = False, badbit = False\<rparr>,
      archiveVersion = 1, tableOffset = 13,
      entries = [([0x41], \<lparr>name = [0x41], compressionMethod = ZLIB,
         fileFlags = \<lparr>encrypted = False\<rparr>, crc32 = 0, originalSize = 1,
         dataStart = 13, dataEnd = 13\<rparr>)],
      openFlag = True, badFlag = False\<rparr>"
  by (simp add: reader_eval record_stalled_def loadTable_loop.simps read_entry_def
      Flags_after_def u32_after_def bytes_of_u32_def le_bytes_numeral ZLIB_def)

theorem getFile_does_not_return_on_empty_zlib_range:
  "openFlag (DatArchiveReader (one_file (header_only 13 @ record_stalled)) 0)
   \<and> \<not> badFlag (DatArchiveReader (one_file (header_only 13 @ record_stalled)) 0)
   \<and> contains (DatArchiveReader (one_file (header_only 13 @ record_stalled)) 0) [0x41]
   \<and> getFile stalled (DatArchiveReader (one_file (header_only 13 @ record_stalled)) 0) [0x41]
       = None"
proof -
  let ?e = "\<lparr>name = [0x41], compressionMethod = ZLIB,
         fileFlags = \<lparr>encrypted = False\<rparr>, crc32 = 0, originalSize = 1,
         dataStart = 13, dataEnd = 13\<rparr>"
  let ?r = "\<lparr>archive = \<lparr>is_open = True, content = header_only 13 @ record_stalled, gpos = 0,
        eofbit = False, failbit = False, badbit = False\<rparr>,
      archiveVersion = 1, tableOffset = 13, entries = [([0x41], ?e)],
      openFlag = True, badFlag = False\<rparr>"
  have init: "fst (inflateInit stalled) = Z_OK" by (simp add: stalled_def)
  have pass: "zlib_pass stalled ?e [0] True (zlib_init stalled ?r ?e)
      = Inr (zlib_init stalled ?r ?e)"
    by (simp add: zlib_init_def zlib_fetch_def zlib_pass_def seekg_def tellg_def sread64_def
        sread_def remaining_def good_def bad_def uInt_def CHUNKSIZE_def stalled_def fill_def
        is_inflate_error_def zcrc32_Nil Let_def)
  have loop: "zlibExtractFile stalled ?r ?e [0] True = None"
    using zlib_loop_stuck [OF pass] zlibExtractFile_loop [OF init, of ?r ?e "[0]" True] by simp
  have "getFile stalled ?r [0x41] = None"
    using loop
    by (simp add: getFile_def contains_def getFileEntry_def vector_max_size_def
        getFileFromEntry_def ZLIB_def NONE_def stalled_def [THEN arg_cong, of allocates])
  then show ?thesis
    by (simp add: DatArchiveReader_record_stalled contains_def)
qed

theorem getFile_does_not_return_on_empty_zlib_range_witness:
  "getFile stalled (DatArchiveReader (one_file (header_only 13 @ record_stalled)) 0) [0x41] = None"
  using getFile_does_not_return_on_empty_zlib_range by blast

section \<open>The writer\<close>

text \<open>
  The stream an archive is written through: the bytes of the file, the put position and
  the fail bit. A write at a position inside the file overwrites, a write behind its end
  leaves a gap of zero bytes, \<open>tellp\<close> gives \<open>-1\<close> on a failed stream and \<open>seekp\<close>
  fails on a negative offset. Opening the stream and writing to it are taken to succeed.
\<close>

record ofstream =
  ocontent :: "byte list"
  ppos :: nat
  ofail :: bool

definition swrite :: "ofstream \<Rightarrow> byte list \<Rightarrow> ofstream" where
  "swrite s d =
     (if ofail s \<or> d = [] then s
      else s\<lparr>ocontent := take (ppos s) (ocontent s @ replicate (ppos s - length (ocontent s)) 0)
                  @ d @ drop (ppos s + length d) (ocontent s),
             ppos := ppos s + length d\<rparr>)"

definition tellp :: "ofstream \<Rightarrow> uint64_t" where
  "tellp s = (if ofail s then - 1 else of_nat (ppos s))"

definition seekp :: "ofstream \<Rightarrow> uint64_t \<Rightarrow> ofstream" where
  "seekp s off =
     (if ofail s then s
      else if sint off < 0 then s\<lparr>ofail := True\<rparr>
      else s\<lparr>ppos := unat off\<rparr>)"

text \<open>
  zlib's \<open>deflate\<close>, a parameter like \<open>inflate\<close>: it is handed the input that is
  left (\<open>next_in\<close>, \<open>avail_in\<close>), whether \<open>flush\<close> is \<open>Z_FINISH\<close>, and the room in
  the output buffer, and answers with its return code, the new state, the input it left
  and the bytes it put out.
\<close>

record 'd compressor =
  deflateInit :: "zret \<times> 'd"
  deflate :: "'d \<Rightarrow> byte list \<Rightarrow> bool \<Rightarrow> nat \<Rightarrow> zret \<times> 'd \<times> byte list \<times> byte list"

text \<open>
  The pending-insertion queue is a \<open>std::map\<close> from path to entry, kept as the list of
  its pairs in path order. Paths are any linearly ordered type.
\<close>

type_synonym 'p queue = "('p \<times> TableEntry) list"


definition removeFile :: "'p queue \<Rightarrow> 'p \<Rightarrow> bool \<times> 'p queue" where
  "removeFile w path = (map_of w path \<noteq> None, filter (\<lambda>pe. fst pe \<noteq> path) w)"

definition clear :: "'p queue \<Rightarrow> 'p queue" where
  "clear w = []"

definition writeHeader :: "ofstream \<Rightarrow> ofstream" where
  "writeHeader archiveFile =
     swrite (swrite (swrite archiveFile DATFILESIGNATURE) [DATFILEVERSION]) (replicate 8 0)"

text \<open>
  \<open>writeFileToArchive\<close>: \<open>rest\<close> is what the source file has left to read. A read of
  \<open>CHUNKSIZE\<close> bytes reaches the end of the file when fewer are left.
\<close>

function copy_chunks :: "byte list \<Rightarrow> ofstream \<Rightarrow> uint32_t \<Rightarrow> ofstream \<times> uint32_t" where
  "copy_chunks rest archiveFile crc =
     (let buffer = take CHUNKSIZE rest;
          crc' = zcrc32 crc buffer;
          archiveFile' = swrite archiveFile buffer
      in if length rest < CHUNKSIZE then (archiveFile', crc')
         else copy_chunks (drop CHUNKSIZE rest) archiveFile' crc')"
  by pat_completeness auto
termination
  by (relation "measure (\<lambda>(rest, a, c). length rest)") (auto simp: CHUNKSIZE_def)

declare copy_chunks.simps [simp del]

definition writeFileToArchive :: "byte list \<Rightarrow> ofstream \<Rightarrow> TableEntry
    \<Rightarrow> ofstream \<times> TableEntry" where
  "writeFileToArchive file archiveFile entry =
     (case copy_chunks file archiveFile 0 of
        (archiveFile', crc) \<Rightarrow> (archiveFile', entry\<lparr>crc32 := crc\<rparr>))"

text \<open>
  \<open>zlibCompressFileToArchive\<close>. A call ends with a return code or in a failed
  \<open>assert\<close>; \<open>Threw\<close> is for the exception that \<open>writeArchive\<close> lets through.
  The state of the inner loop is the deflate state, the input left, the archive stream
  and the entry's checksum.
\<close>

datatype 'a ended = Done 'a | Assert_failed | Threw exception

record 'd dloop =
  dl_strm :: 'd
  dl_in :: "byte list"
  dl_archive :: ofstream
  dl_crc :: uint32_t

text \<open>
  One pass of the inner \<open>do ... while (strm.avail_out == 0)\<close>: \<open>Inl\<close> is the early
  return of the function with its code, \<open>Inr\<close> the state after the pass, with the code
  of \<open>deflate\<close> and whether the loop goes round again.
\<close>

definition deflate_pass :: "'d compressor \<Rightarrow> bool \<Rightarrow> 'd dloop
    \<Rightarrow> (zret \<times> ofstream \<times> uint32_t) + (zret \<times> bool \<times> 'd dloop)" where
  "deflate_pass C flush st =
     (let (ret, z, inp, produced) = deflate C (dl_strm st) (dl_in st) flush CHUNKSIZE;
          out = take CHUNKSIZE produced
      in if ret = Z_STREAM_ERROR then Inl (ret, dl_archive st, dl_crc st)
         else
           let have = length out;
               crc = zcrc32 (dl_crc st) out;
               diff0 = (ucast (tellp (dl_archive st)) :: uint32_t);
               archiveFile = swrite (dl_archive st) out;
               diff = (ucast (tellp archiveFile) :: uint32_t) - diff0
           in if diff \<noteq> of_nat have \<or> ofail archiveFile then Inl (ret, archiveFile, crc)
              else Inr (ret, have = CHUNKSIZE,
                  \<lparr>dl_strm = z, dl_in = inp, dl_archive = archiveFile, dl_crc = crc\<rparr>))"

partial_function (option) deflate_drain :: "'d compressor \<Rightarrow> bool \<Rightarrow> 'd dloop
    \<Rightarrow> ((zret \<times> ofstream \<times> uint32_t) + (zret \<times> 'd dloop)) option" where
  "deflate_drain C flush st =
     (case deflate_pass C flush st of
        Inl early \<Rightarrow> Some (Inl early)
      | Inr (ret, again, st') \<Rightarrow>
          if again then deflate_drain C flush st' else Some (Inr (ret, st')))"

text \<open>
  The outer loop: one chunk of the source file per pass, the last one with
  \<open>Z_FINISH\<close>.
\<close>

function compress_chunks :: "'d compressor \<Rightarrow> byte list \<Rightarrow> 'd \<Rightarrow> ofstream \<Rightarrow> uint32_t
    \<Rightarrow> (zret \<times> ofstream \<times> uint32_t) ended option" where
  "compress_chunks C rest z archiveFile crc =
     (let flush = (length rest < CHUNKSIZE) in
      case deflate_drain C flush
             \<lparr>dl_strm = z, dl_in = take CHUNKSIZE rest, dl_archive = archiveFile, dl_crc = crc\<rparr> of
        None \<Rightarrow> None
      | Some (Inl early) \<Rightarrow> Some (Done early)
      | Some (Inr (ret, st)) \<Rightarrow>
          if dl_in st \<noteq> [] then Some Assert_failed
          else if \<not> flush
          then compress_chunks C (drop CHUNKSIZE rest) (dl_strm st) (dl_archive st) (dl_crc st)
          else if ret \<noteq> Z_STREAM_END then Some Assert_failed
          else Some (Done (Z_OK, dl_archive st, dl_crc st)))"
  by pat_completeness auto
termination
  by (relation "measure (\<lambda>(C, rest, z, a, c). length rest)") (auto simp: CHUNKSIZE_def)

declare compress_chunks.simps [simp del]

definition zlibCompressFileToArchive :: "'d compressor \<Rightarrow> byte list \<Rightarrow> ofstream \<Rightarrow> TableEntry
    \<Rightarrow> (zret \<times> ofstream \<times> TableEntry) ended option" where
  "zlibCompressFileToArchive C file archiveFile entry =
     (let (ret, z) = deflateInit C in
      if ret \<noteq> Z_OK then Some (Done (ret, archiveFile, entry))
      else case compress_chunks C file z archiveFile (crc32 entry) of
        None \<Rightarrow> None
      | Some Assert_failed \<Rightarrow> Some Assert_failed
      | Some (Threw x) \<Rightarrow> Some (Threw x)
      | Some (Done (rc, archiveFile', crc)) \<Rightarrow> Some (Done (rc, archiveFile', entry\<lparr>crc32 := crc\<rparr>)))"

text \<open>
  \<open>writeFiles\<close>, over the queue in path order. A source file that cannot be opened is
  skipped and its entry is left as it is. The result of the compression is not looked
  at. The queue comes back with the entries as the loop has updated them.
\<close>

definition write_one :: "'d compressor \<Rightarrow> byte list \<Rightarrow> ofstream \<Rightarrow> TableEntry
    \<Rightarrow> (ofstream \<times> TableEntry) ended option" where
  "write_one C file archiveFile entry0 =
     (let entry = entry0\<lparr>dataStart := tellp archiveFile, originalSize := of_nat (length file)\<rparr>
      in if compressionMethod entry = NONE
         then (case writeFileToArchive file archiveFile entry of
                 (a, e) \<Rightarrow> Some (Done (a, e\<lparr>dataEnd := tellp a\<rparr>)))
         else if compressionMethod entry = ZLIB
         then (case zlibCompressFileToArchive C file archiveFile entry of
                 None \<Rightarrow> None
               | Some Assert_failed \<Rightarrow> Some Assert_failed
               | Some (Threw x) \<Rightarrow> Some (Threw x)
               | Some (Done (rc, a, e)) \<Rightarrow> Some (Done (a, e\<lparr>dataEnd := tellp a\<rparr>)))
         else Some (Done (archiveFile, entry\<lparr>dataEnd := tellp archiveFile\<rparr>)))"

fun writeFiles :: "'d compressor \<Rightarrow> 'p filesystem \<Rightarrow> 'p queue \<Rightarrow> ofstream
    \<Rightarrow> ('p queue \<times> ofstream) ended option" where
  "writeFiles C fs [] archiveFile = Some (Done ([], archiveFile))"
| "writeFiles C fs ((path, entry) # q) archiveFile =
     (case (case fs path of
              None \<Rightarrow> Some (Done (archiveFile, entry))
            | Some file \<Rightarrow> write_one C file archiveFile entry) of
        None \<Rightarrow> None
      | Some Assert_failed \<Rightarrow> Some Assert_failed
      | Some (Threw x) \<Rightarrow> Some (Threw x)
      | Some (Done (a, e)) \<Rightarrow>
          (case writeFiles C fs q a of
             None \<Rightarrow> None
           | Some Assert_failed \<Rightarrow> Some Assert_failed
           | Some (Threw x) \<Rightarrow> Some (Threw x)
           | Some (Done (q', a')) \<Rightarrow> Some (Done ((path, e) # q', a'))))"

definition writeTableLocation :: "ofstream \<Rightarrow> ofstream" where
  "writeTableLocation archiveFile =
     (let tableOffset = tellp archiveFile;
          a1 = seekp archiveFile 5;
          a2 = swrite a1 (bytes_of_u64 tableOffset)
      in seekp a2 tableOffset)"

definition writeTableEntry :: "ofstream \<Rightarrow> TableEntry \<Rightarrow> ofstream" where
  "writeTableEntry archiveFile entry =
     (let nameSize = (of_nat (length (name entry)) :: uint16_t);
          a1 = swrite archiveFile (bytes_of_u16 nameSize);
          a2 = swrite a1 (take (unat nameSize) (name entry));
          a3 = swrite a2 [compressionMethod entry];
          a4 = swrite a3 [byte_of_Flags (fileFlags entry)];
          a5 = swrite a4 (bytes_of_u32 (crc32 entry));
          a6 = swrite a5 (bytes_of_u64 (originalSize entry));
          a7 = swrite a6 (bytes_of_u64 (dataStart entry))
      in swrite a7 (bytes_of_u64 (dataEnd entry)))"

definition writeTable :: "ofstream \<Rightarrow> TableEntry list \<Rightarrow> ofstream" where
  "writeTable archiveFile es = foldl writeTableEntry archiveFile es"

text \<open>
  \<open>writeArchive\<close>. \<open>write_fresh\<close> is the function from the call of
  \<open>create_directories(destination.parent_path())\<close> on. That call throws
  \<open>std::filesystem::filesystem_error\<close> when it fails, as it does for a destination
  without a directory part; \<open>mkdirs destination\<close> tells whether it succeeds. The
  stream starts empty, and closing it puts its bytes at the destination.
\<close>

definition write_fresh :: "('p \<Rightarrow> bool) \<Rightarrow> 'd compressor \<Rightarrow> 'p filesystem \<Rightarrow> 'p queue \<Rightarrow> 'p
    \<Rightarrow> (bool \<times> 'p filesystem \<times> 'p queue) ended option" where
  "write_fresh mkdirs C fs w destination =
     (if \<not> mkdirs destination then Some (Threw filesystem_error)
      else
      let stream = writeHeader \<lparr>ocontent = [], ppos = 0, ofail = False\<rparr> in
      case writeFiles C fs w stream of
        None \<Rightarrow> None
      | Some Assert_failed \<Rightarrow> Some Assert_failed
      | Some (Threw x) \<Rightarrow> Some (Threw x)
      | Some (Done (w', a)) \<Rightarrow>
          let a' = writeTable (writeTableLocation a) (map snd w')
          in Some (Done (True, fs(destination \<mapsto> ocontent a'), w')))"

definition writeArchive :: "('p \<Rightarrow> bool) \<Rightarrow> 'd compressor \<Rightarrow> 'p filesystem \<Rightarrow> 'p queue
    \<Rightarrow> 'p \<Rightarrow> bool \<Rightarrow> (bool \<times> 'p filesystem \<times> 'p queue) ended option" where
  "writeArchive mkdirs C fs w destination overwrite =
     (if fs destination \<noteq> None
      then (if overwrite
            then write_fresh mkdirs C fs (snd (removeFile w destination)) destination
            else Some (Done (False, fs, w)))
      else write_fresh mkdirs C fs w destination)"

text \<open>
  \<open>appendArchive\<close>. \<open>std::sort\<close> promises the order of \<open>dataStart\<close> and nothing
  about entries that agree on it; the model sorts with \<open>sort_key\<close>. The output stream
  is opened for reading and writing, which keeps the bytes of the file.
\<close>

definition appendArchive :: "'d compressor \<Rightarrow> 'p filesystem \<Rightarrow> 'p queue \<Rightarrow> 'p
    \<Rightarrow> (bool \<times> 'p filesystem \<times> 'p queue) ended option" where
  "appendArchive C fs w destinationArchive =
     (case fs destinationArchive of
        None \<Rightarrow> Some (Done (False, fs, w))
      | Some old \<Rightarrow>
          let archive = DatArchiveReader fs destinationArchive in
          if isBad archive \<or> \<not> isOpen archive then Some (Done (False, fs, w))
          else
            let tableOffset = getTableOffset archive;
                table = getTable archive;
                closed = closeArchive archive;
                es = sort_key dataStart table;
                w1 = filter (\<lambda>pe. \<not> list_ex (\<lambda>entry. name entry = name (snd pe)) es) w;
                stream = seekp \<lparr>ocontent = old, ppos = 0, ofail = False\<rparr> tableOffset
            in case writeFiles C fs w1 stream of
                 None \<Rightarrow> None
               | Some Assert_failed \<Rightarrow> Some Assert_failed
               | Some (Threw x) \<Rightarrow> Some (Threw x)
               | Some (Done (w', a)) \<Rightarrow>
                   let a' = writeTable (writeTable (writeTableLocation a) es) (map snd w')
                   in Some (Done (True, fs(destinationArchive \<mapsto> ocontent a'), w')))"

section \<open>What the writer puts into the stream\<close>

text \<open>
  \<open>over old a c\<close>: the stream \<open>a\<close> has not failed, it has been opened on the bytes
  \<open>old\<close>, the bytes before its put position are \<open>c\<close>, and behind the put position
  the bytes of \<open>old\<close> are still there. A stream opened on nothing stands at the end
  of what has been written to it.
\<close>

definition over :: "byte list \<Rightarrow> ofstream \<Rightarrow> byte list \<Rightarrow> bool" where
  "over old a c = (\<not> ofail a \<and> ppos a = length c \<and> ocontent a = c @ drop (length c) old)"

lemma over_fresh: "over [] \<lparr>ocontent = [], ppos = 0, ofail = False\<rparr> []"
  by (simp add: over_def)

lemma over_Nil: "over [] a c \<Longrightarrow> ocontent a = c"
  by (simp add: over_def)

lemma swrite_over:
  assumes "over old a c"
  shows "over old (swrite a d) (c @ d)"
proof (cases "d = []")
  case True
  then show ?thesis using assms by (simp add: swrite_def)
next
  case False
  have "drop (length c + length d) (c @ drop (length c) old) = drop (length c + length d) old"
    by (simp add: add.commute)
  then show ?thesis
    using assms False by (simp add: swrite_def over_def)
qed

lemma tellp_over: "over old a c \<Longrightarrow> tellp a = of_nat (length c)"
  by (simp add: tellp_def over_def)

lemma copy_chunks_over:
  "over old a c \<Longrightarrow>
     over old (fst (copy_chunks rest a crc)) (c @ rest)
     \<and> snd (copy_chunks rest a crc) = zcrc32 crc rest"
proof (induction rest a crc arbitrary: c rule: copy_chunks.induct)
  case (1 rest a crc)
  note w = swrite_over [OF "1.prems", of "take CHUNKSIZE rest"]
  show ?case
  proof (cases "length rest < CHUNKSIZE")
    case True
    then show ?thesis
      using w by (simp add: copy_chunks.simps [of rest a crc] Let_def)
  next
    case False
    have ih: "over old (fst (copy_chunks (drop CHUNKSIZE rest) (swrite a (take CHUNKSIZE rest))
                 (zcrc32 crc (take CHUNKSIZE rest))))
              ((c @ take CHUNKSIZE rest) @ drop CHUNKSIZE rest)
      \<and> snd (copy_chunks (drop CHUNKSIZE rest) (swrite a (take CHUNKSIZE rest))
                 (zcrc32 crc (take CHUNKSIZE rest)))
          = zcrc32 (zcrc32 crc (take CHUNKSIZE rest)) (drop CHUNKSIZE rest)"
      using "1.IH" [OF refl refl refl False w] .
    show ?thesis
      using False ih
      by (simp add: copy_chunks.simps [of rest a crc] Let_def zcrc32_append)
  qed
qed

lemma writeFileToArchive_over:
  assumes "over old a c"
  shows "over old (fst (writeFileToArchive file a e)) (c @ file)"
    and "snd (writeFileToArchive file a e) = e\<lparr>crc32 := zcrc32 0 file\<rparr>"
  using copy_chunks_over [OF assms, where rest = "file" and crc = 0]
  by (simp_all add: writeFileToArchive_def split_beta)

text \<open>The bytes of one record of the table, as \<open>writeTableEntry\<close> writes them.\<close>

definition entry_bytes :: "TableEntry \<Rightarrow> byte list" where
  "entry_bytes e =
     bytes_of_u16 (of_nat (length (name e)))
     @ take (unat (of_nat (length (name e)) :: uint16_t)) (name e)
     @ [compressionMethod e] @ [byte_of_Flags (fileFlags e)]
     @ bytes_of_u32 (crc32 e) @ bytes_of_u64 (originalSize e)
     @ bytes_of_u64 (dataStart e) @ bytes_of_u64 (dataEnd e)"

lemma writeTableEntry_over:
  assumes "over old a c"
  shows "over old (writeTableEntry a e) (c @ entry_bytes e)"
proof -
  note s1 = swrite_over [OF assms, of "bytes_of_u16 (of_nat (length (name e)))"]
  note s2 = swrite_over [OF s1, of "take (unat (of_nat (length (name e)) :: uint16_t)) (name e)"]
  note s3 = swrite_over [OF s2, of "[compressionMethod e]"]
  note s4 = swrite_over [OF s3, of "[byte_of_Flags (fileFlags e)]"]
  note s5 = swrite_over [OF s4, of "bytes_of_u32 (crc32 e)"]
  note s6 = swrite_over [OF s5, of "bytes_of_u64 (originalSize e)"]
  note s7 = swrite_over [OF s6, of "bytes_of_u64 (dataStart e)"]
  note s8 = swrite_over [OF s7, of "bytes_of_u64 (dataEnd e)"]
  show ?thesis
    using s8 by (simp add: writeTableEntry_def Let_def entry_bytes_def)
qed

lemma writeTable_over:
  "over old a c \<Longrightarrow> over old (writeTable a es) (c @ concat (map entry_bytes es))"
proof (induction es arbitrary: a c)
  case Nil
  then show ?case by (simp add: writeTable_def)
next
  case (Cons e es)
  note w = writeTableEntry_over [OF Cons.prems, of e]
  show ?case
    using Cons.IH [OF w] by (simp add: writeTable_def)
qed

lemma length_le_bytes [simp]: "length (le_bytes k n) = k"
  by (induction k arbitrary: n) simp_all

lemma length_bytes_of [simp]:
  "length (bytes_of_u16 w) = 2" "length (bytes_of_u32 v) = 4" "length (bytes_of_u64 x) = 8"
  by (simp_all add: bytes_of_u16_def bytes_of_u32_def bytes_of_u64_def le_bytes_numeral)

lemma unat_of_nat_64: "n < 2 ^ 64 \<Longrightarrow> unat (of_nat n :: uint64_t) = n"
  by (simp add: unat_of_nat)

lemma sint_of_nat_64:
  assumes "n < 2 ^ 63"
  shows "sint (of_nat n :: uint64_t) = int n"
proof -
  have "sint (of_nat n :: uint64_t) = sint (word_of_int (int n) :: uint64_t)" by simp
  also have "\<dots> = (int n + 2 ^ 63) mod 2 ^ 64 - 2 ^ 63"
    by (simp only: int_word_sint) simp
  also have "\<dots> = int n"
    using assms by (simp add: mod_pos_pos_trivial)
  finally show ?thesis .
qed

lemma writeTableLocation_over:
  assumes "over old a c" and "13 \<le> length c" and "length c < 2 ^ 63"
  shows "over old (writeTableLocation a)
           (take 5 c @ bytes_of_u64 (of_nat (length c)) @ drop 13 c)"
proof -
  let ?n = "length c"
  have t: "tellp a = of_nat ?n" using assms(1) by (rule tellp_over)
  have u: "unat (of_nat ?n :: uint64_t) = ?n" using assms(3) by (simp add: unat_of_nat_64)
  have s: "0 \<le> sint (of_nat ?n :: uint64_t)" using assms(3) by (simp add: sint_of_nat_64)
  have nf: "\<not> ofail a" and pp: "ppos a = ?n" and oc: "ocontent a = c @ drop ?n old"
    using assms(1) by (simp_all add: over_def)
  have a1: "seekp a 5 = a\<lparr>ppos := 5\<rparr>" using nf by (simp add: seekp_def)
  have a2: "swrite (a\<lparr>ppos := 5\<rparr>) (bytes_of_u64 (of_nat ?n))
      = a\<lparr>ocontent := (take 5 c @ bytes_of_u64 (of_nat ?n) @ drop 13 c) @ drop ?n old,
           ppos := 13\<rparr>"
    using nf assms(2) by (simp add: swrite_def oc bytes_of_u64_def le_bytes_numeral)
  have a3: "writeTableLocation a
      = a\<lparr>ocontent := (take 5 c @ bytes_of_u64 (of_nat ?n) @ drop 13 c) @ drop ?n old,
           ppos := ?n\<rparr>"
    using nf s u by (simp add: writeTableLocation_def Let_def t a1 a2 seekp_def not_less)
  show ?thesis
    using nf assms(2) unfolding a3 by (simp add: over_def)
qed

section \<open>What is assumed of zlib\<close>

text \<open>
  \<open>deflate_ok C enc\<close>: the compressor \<open>C\<close> produces the stream \<open>enc bs\<close> for the
  input \<open>bs\<close>, call by call as zlib's interface promises. The promise is stated with
  what a state has taken in and given out so far: a call on a state it may be called in
  never answers \<open>Z_STREAM_ERROR\<close>, puts out at most the room it is given, and moves
  input it consumes to what it has taken; when it leaves room in the output it has
  consumed all its input, and if the call was made with \<open>Z_FINISH\<close> it answers
  \<open>Z_STREAM_END\<close> and all it has given out is \<open>enc\<close> of all it has taken; when it
  fills the output, what is still pending has become less. After a call without
  \<open>Z_FINISH\<close> that left room, any call may follow; after a call that filled the
  output, the same call may follow.
\<close>

definition deflate_spec :: "'d compressor \<Rightarrow> (byte list \<Rightarrow> byte list)
    \<Rightarrow> ('d \<Rightarrow> byte list \<Rightarrow> bool \<Rightarrow> bool) \<Rightarrow> ('d \<Rightarrow> byte list) \<Rightarrow> ('d \<Rightarrow> byte list)
    \<Rightarrow> ('d \<Rightarrow> byte list \<Rightarrow> bool \<Rightarrow> nat) \<Rightarrow> bool" where
  "deflate_spec C enc pre taken given pend =
     (fst (deflateInit C) = Z_OK
      \<and> (\<forall>inp fin. pre (snd (deflateInit C)) inp fin)
      \<and> taken (snd (deflateInit C)) = [] \<and> given (snd (deflateInit C)) = []
      \<and> (\<forall>z inp fin. pre z inp fin \<longrightarrow>
            (case deflate C z inp fin CHUNKSIZE of (ret, z', inp', out) \<Rightarrow>
               ret \<noteq> Z_STREAM_ERROR \<and> length out \<le> CHUNKSIZE
               \<and> taken z' @ inp' = taken z @ inp \<and> given z' = given z @ out
               \<and> (length out < CHUNKSIZE \<longrightarrow> inp' = []
                    \<and> (if fin then ret = Z_STREAM_END \<and> given z' = enc (taken z')
                        else (\<forall>inp2 fin2. pre z' inp2 fin2)))
               \<and> (length out = CHUNKSIZE \<longrightarrow> pre z' inp' fin
                    \<and> pend z' inp' fin < pend z inp fin))))"

definition deflate_ok :: "'d compressor \<Rightarrow> (byte list \<Rightarrow> byte list) \<Rightarrow> bool" where
  "deflate_ok C enc = (\<exists>pre taken given pend. deflate_spec C enc pre taken given pend)"

text \<open>
  \<open>inflate_ok E enc\<close>: the engine \<open>E\<close> decodes the streams \<open>enc\<close> makes. As long as
  what it has been fed, with the input of this call, is the beginning of \<open>enc bs\<close>, and
  the room it is given is what \<open>bs\<close> still needs, a call with input takes all its
  input, appends to what it has put out, and answers \<open>Z_STREAM_END\<close> with all of
  \<open>bs\<close> put out when the stream is complete, and \<open>Z_OK\<close> when it is not. The
  promise is made for payloads that are not empty and shorter than \<open>2 ^ 32\<close> bytes,
  the only ones whose length \<open>avail_out\<close> can hold and whose buffer is not empty. No
  stream is empty.
\<close>

definition inflate_spec :: "'z runtime \<Rightarrow> (byte list \<Rightarrow> byte list)
    \<Rightarrow> ('z \<Rightarrow> bool) \<Rightarrow> ('z \<Rightarrow> byte list) \<Rightarrow> ('z \<Rightarrow> byte list) \<Rightarrow> bool" where
  "inflate_spec E enc sane fed put =
     (fst (inflateInit E) = Z_OK \<and> sane (snd (inflateInit E))
      \<and> fed (snd (inflateInit E)) = [] \<and> put (snd (inflateInit E)) = []
      \<and> (\<forall>bs. enc bs \<noteq> [])
      \<and> (\<forall>z inp room bs rest.
            sane z \<and> inp \<noteq> [] \<and> fed z @ inp @ rest = enc bs
            \<and> length (put z) + room = length bs \<and> bs \<noteq> [] \<and> length bs < 2 ^ 32 \<longrightarrow>
            (case inflate E z inp room of (rc, z', out) \<Rightarrow>
               sane z' \<and> fed z' = fed z @ inp \<and> put z' = put z @ out \<and> length out \<le> room
               \<and> (if rest = [] then rc = Z_STREAM_END \<and> put z' = bs else rc = Z_OK))))"

definition inflate_ok :: "'z runtime \<Rightarrow> (byte list \<Rightarrow> byte list) \<Rightarrow> bool" where
  "inflate_ok E enc = (\<exists>sane fed put. inflate_spec E enc sane fed put)"

text \<open>
  A codec that meets both: the stream is the payload behind its length in four bytes,
  the compressor keeps its input until \<open>Z_FINISH\<close> and then hands the stream out as
  room allows, and the decompressor hands the payload out when the stream is complete.
\<close>

definition toy_enc :: "byte list \<Rightarrow> byte list" where
  "toy_enc bs = le_bytes 4 (length bs) @ bs"

record toy_d =
  td_buf :: "byte list"
  td_queue :: "byte list"
  td_sent :: "byte list"
  td_done :: bool

definition toy_deflate :: "toy_d \<Rightarrow> byte list \<Rightarrow> bool \<Rightarrow> nat
    \<Rightarrow> zret \<times> toy_d \<times> byte list \<times> byte list" where
  "toy_deflate z inp fin room =
     (let buf = td_buf z @ inp;
          queue = (if fin \<and> \<not> td_done z then td_queue z @ toy_enc buf else td_queue z);
          dn = (td_done z \<or> fin)
      in ((if dn \<and> drop room queue = [] then Z_STREAM_END else Z_OK),
          \<lparr>td_buf = buf, td_queue = drop room queue, td_sent = td_sent z @ take room queue,
            td_done = dn\<rparr>,
          [], take room queue))"

definition toy_compressor :: "toy_d compressor" where
  "toy_compressor =
     \<lparr>deflateInit = (Z_OK, \<lparr>td_buf = [], td_queue = [], td_sent = [], td_done = False\<rparr>),
      deflate = toy_deflate\<rparr>"

definition toy_inflate :: "byte list \<Rightarrow> byte list \<Rightarrow> nat \<Rightarrow> zret \<times> byte list \<times> byte list" where
  "toy_inflate acc inp room =
     (let acc' = acc @ inp in
      if 4 \<le> length acc' \<and> 4 + le_nat (take 4 acc') \<le> length acc'
      then (Z_STREAM_END, acc', take room (take (le_nat (take 4 acc')) (drop 4 acc')))
      else (if inp = [] then Z_BUF_ERROR else Z_OK, acc', []))"

definition toy_runtime :: "byte list runtime" where
  "toy_runtime = \<lparr>inflateInit = (Z_OK, []), inflate = toy_inflate, chunk_mem = (\<lambda>i. 0),
     allocates = (\<lambda>n. True)\<rparr>"

lemma CHUNKSIZE_pos: "0 < CHUNKSIZE"
  by (simp add: CHUNKSIZE_def)

lemma toy_deflate_ok: "deflate_ok toy_compressor toy_enc"
proof -
  define inv where "inv = (\<lambda>z :: toy_d. if td_done z then td_sent z @ td_queue z = toy_enc (td_buf z)
                              else td_sent z = [] \<and> td_queue z = [])"
  define pre where "pre = (\<lambda>(z :: toy_d) (inp :: byte list) (fin :: bool).
      inv z \<and> (td_done z \<longrightarrow> inp = [] \<and> fin))"
  define pend where "pend = (\<lambda>(z :: toy_d) (inp :: byte list) (fin :: bool).
      length (if fin \<and> \<not> td_done z then td_queue z @ toy_enc (td_buf z @ inp) else td_queue z))"
  have step: "case deflate toy_compressor z inp fin CHUNKSIZE of (ret, z', inp', out) \<Rightarrow>
                 ret \<noteq> Z_STREAM_ERROR \<and> length out \<le> CHUNKSIZE
                 \<and> td_buf z' @ inp' = td_buf z @ inp \<and> td_sent z' = td_sent z @ out
                 \<and> (length out < CHUNKSIZE \<longrightarrow> inp' = []
                      \<and> (if fin then ret = Z_STREAM_END \<and> td_sent z' = toy_enc (td_buf z')
                          else (\<forall>inp2 fin2. pre z' inp2 fin2)))
                 \<and> (length out = CHUNKSIZE \<longrightarrow> pre z' inp' fin
                      \<and> pend z' inp' fin < pend z inp fin)"
    if p: "pre z inp fin" for z inp fin
  proof (cases "td_done z")
    case True
    then have i: "td_sent z @ td_queue z = toy_enc (td_buf z)" "inp = []" "fin"
      using p by (simp_all add: pre_def inv_def)
    have "td_sent z @ take CHUNKSIZE (td_queue z) @ drop CHUNKSIZE (td_queue z) = toy_enc (td_buf z)"
      using i(1) by simp
    then show ?thesis
      using True i CHUNKSIZE_pos
      by (auto simp: toy_compressor_def toy_deflate_def Let_def pre_def inv_def pend_def)
  next
    case False
    then have i: "td_sent z = []" "td_queue z = []"
      using p by (simp_all add: pre_def inv_def)
    show ?thesis
      using False i CHUNKSIZE_pos
      by (auto simp: toy_compressor_def toy_deflate_def Let_def pre_def inv_def pend_def)
  qed
  have init: "\<forall>inp fin. pre (snd (deflateInit toy_compressor)) inp fin"
    by (simp add: pre_def inv_def toy_compressor_def)
  show ?thesis
    unfolding deflate_ok_def deflate_spec_def
    apply (rule exI [of _ pre], rule exI [of _ "td_buf :: toy_d \<Rightarrow> byte list"],
        rule exI [of _ "td_sent :: toy_d \<Rightarrow> byte list"], rule exI [of _ pend])
    using init step by (simp add: toy_compressor_def)
qed

lemma unat_of_nat_byte: "unat (of_nat (n mod 256) :: byte) = n mod 256"
  by (simp add: unat_of_nat)

lemma le_nat_le_bytes: "le_nat (le_bytes k n) = n mod 256 ^ k"
proof (induction k arbitrary: n)
  case 0
  show ?case by simp
next
  case (Suc k)
  have "n mod (256 * 256 ^ k) = 256 * (n div 256 mod 256 ^ k) + n mod 256"
    by (rule mod_mult2_eq)
  then show ?case
    using Suc [of "n div 256"] by (simp add: unat_of_nat_byte)
qed

lemma le_nat_le_bytes_4: "n < 2 ^ 32 \<Longrightarrow> le_nat (le_bytes 4 n) = n"
  using le_nat_le_bytes [of 4 n] by simp

lemma length_toy_enc: "length (toy_enc bs) = 4 + length bs"
  by (simp add: toy_enc_def)

lemma toy_enc_not_Nil: "toy_enc bs \<noteq> []"
  using length_toy_enc [of bs] by auto

definition toy_put :: "byte list \<Rightarrow> byte list" where
  "toy_put z =
     (if 4 \<le> length z \<and> 4 + le_nat (take 4 z) \<le> length z
      then take (le_nat (take 4 z)) (drop 4 z) else [])"

lemma toy_inflate_step:
  assumes h: "inp \<noteq> []" "z @ inp @ rest = toy_enc bs" "length (toy_put z) + room = length bs"
      "bs \<noteq> []" "length bs < 2 ^ 32"
  shows "room = length bs"
    and "case toy_inflate z inp room of (rc, z', out) \<Rightarrow>
           z' = z @ inp \<and> toy_put z' = toy_put z @ out \<and> length out \<le> room
           \<and> (if rest = [] then rc = Z_STREAM_END \<and> toy_put z' = bs else rc = Z_OK)"
proof -
  define acc where "acc = z @ inp"
  have len: "length acc + length rest = 4 + length bs"
    using h(2) length_toy_enc [of bs] unfolding acc_def by (metis append.assoc length_append)
  have hd4: "le_nat (take 4 y) = length bs" if "4 \<le> length y" "y @ r = toy_enc bs" for y r
  proof -
    have "take 4 y = take 4 (y @ r)" using that(1) by simp
    also have "\<dots> = le_bytes 4 (length bs)" using that(2) by (simp add: toy_enc_def)
    finally show ?thesis using h(5) by (simp add: le_nat_le_bytes_4)
  qed
  have zshort: "length z < 4 + length bs"
    using len h(1) unfolding acc_def by (cases inp) auto
  have pz: "toy_put z = []"
    using hd4 [of z "inp @ rest"] h(2) zshort by (auto simp: toy_put_def)
  then show room: "room = length bs" using h(3) by simp
  have res: "toy_inflate z inp room =
     (if 4 \<le> length acc \<and> 4 + le_nat (take 4 acc) \<le> length acc
      then (Z_STREAM_END, acc, take room (take (le_nat (take 4 acc)) (drop 4 acc)))
      else (Z_OK, acc, []))"
    using h(1) by (simp add: toy_inflate_def Let_def acc_def)
  show "case toy_inflate z inp room of (rc, z', out) \<Rightarrow>
           z' = z @ inp \<and> toy_put z' = toy_put z @ out \<and> length out \<le> room
           \<and> (if rest = [] then rc = Z_STREAM_END \<and> toy_put z' = bs else rc = Z_OK)"
  proof (cases "rest = []")
    case True
    then have eq: "acc = toy_enc bs" using h(2) by (simp add: acc_def)
    have l4: "4 \<le> length acc" using len True by simp
    have n: "le_nat (take 4 acc) = length bs" using hd4 [of acc "[]"] l4 eq by simp
    have d: "drop 4 acc = bs" using eq by (simp add: toy_enc_def)
    have "toy_put acc = bs" using l4 n d len True by (simp add: toy_put_def)
    then show ?thesis
      unfolding res acc_def [symmetric] using True l4 n d len room pz by simp
  next
    case False
    then have lr: "length acc < 4 + length bs"
      using len by (cases rest) auto
    have nc: "\<not> (4 \<le> length acc \<and> 4 + le_nat (take 4 acc) \<le> length acc)"
    proof (cases "4 \<le> length acc")
      case True
      have "acc @ rest = toy_enc bs" using h(2) by (simp add: acc_def)
      then have "le_nat (take 4 acc) = length bs" using hd4 [OF True] by blast
      then show ?thesis using lr by simp
    next
      case False
      then show ?thesis by simp
    qed
    have "toy_put acc = []" using nc unfolding toy_put_def by (simp only: if_False)
    then show ?thesis
      unfolding res acc_def [symmetric] using False nc pz by simp
  qed
qed

lemma toy_put_Nil: "toy_put [] = []"
  by (simp add: toy_put_def)

lemma toy_inflate_ok: "inflate_ok toy_runtime toy_enc"
proof -
  have step: "case inflate toy_runtime z inp room of (rc, z', out) \<Rightarrow>
           True \<and> z' = z @ inp \<and> toy_put z' = toy_put z @ out \<and> length out \<le> room
           \<and> (if rest = [] then rc = Z_STREAM_END \<and> toy_put z' = bs else rc = Z_OK)"
    if "True \<and> inp \<noteq> [] \<and> z @ inp @ rest = toy_enc bs
        \<and> length (toy_put z) + room = length bs \<and> bs \<noteq> [] \<and> length bs < 2 ^ 32"
    for z inp room bs rest
    using toy_inflate_step(2) [of inp z rest bs room] that
    by (cases "toy_inflate z inp room") (auto simp: toy_runtime_def)
  have big: "\<forall>z inp room bs rest.
      True \<and> inp \<noteq> [] \<and> z @ inp @ rest = toy_enc bs
        \<and> length (toy_put z) + room = length bs \<and> bs \<noteq> [] \<and> length bs < 2 ^ 32 \<longrightarrow>
      (case inflate toy_runtime z inp room of (rc, z', out) \<Rightarrow>
         True \<and> z' = z @ inp \<and> toy_put z' = toy_put z @ out \<and> length out \<le> room
         \<and> (if rest = [] then rc = Z_STREAM_END \<and> toy_put z' = bs else rc = Z_OK))"
    by (intro allI impI, rule step)
  have i: "fst (inflateInit toy_runtime) = Z_OK" "snd (inflateInit toy_runtime) = []"
    by (simp_all add: toy_runtime_def)
  show ?thesis
    unfolding inflate_ok_def inflate_spec_def
    apply (rule exI [of _ "\<lambda>z. True"], rule exI [of _ "\<lambda>z :: byte list. z"],
        rule exI [of _ toy_put])
    using big i toy_put_Nil toy_enc_not_Nil by simp
qed

section \<open>The compression loops under the assumption on deflate\<close>

lemma ucast_of_nat_64_32: "(ucast (of_nat n :: uint64_t) :: uint32_t) = of_nat n"
  by (rule bit_word_eqI) (auto simp: bit_simps)

lemma deflate_pass_over:
  assumes "deflate C z inp fin CHUNKSIZE = (ret, z1, inp1, out)"
    and "ret \<noteq> Z_STREAM_ERROR" and "length out \<le> CHUNKSIZE" and "over old a c"
  shows "deflate_pass C fin \<lparr>dl_strm = z, dl_in = inp, dl_archive = a, dl_crc = crc\<rparr>
     = Inr (ret, length out = CHUNKSIZE,
         \<lparr>dl_strm = z1, dl_in = inp1, dl_archive = swrite a out, dl_crc = zcrc32 crc out\<rparr>)"
proof -
  note w = swrite_over [OF assms(4), of out]
  have t0: "tellp a = of_nat (length c)" using assms(4) by (rule tellp_over)
  have t1: "tellp (swrite a out) = of_nat (length c + length out)"
    using tellp_over [OF w] by simp
  have "(ucast (tellp (swrite a out)) :: uint32_t) = of_nat (length c + length out)"
    "(ucast (tellp a) :: uint32_t) = of_nat (length c)"
    by (simp_all only: t0 t1 ucast_of_nat_64_32)
  then have diff:
    "(ucast (tellp (swrite a out)) :: uint32_t) - ucast (tellp a) = of_nat (length out)"
    by simp
  have nf: "\<not> ofail (swrite a out)" using w by (simp add: over_def)
  show ?thesis
    using assms(1,2,3) diff nf by (simp add: deflate_pass_def Let_def)
qed

lemma deflate_spec_step:
  assumes "deflate_spec C enc pre taken given pend" and "pre z inp fin"
    and "deflate C z inp fin CHUNKSIZE = (ret, z1, inp1, out)"
  shows "ret \<noteq> Z_STREAM_ERROR \<and> length out \<le> CHUNKSIZE
     \<and> taken z1 @ inp1 = taken z @ inp \<and> given z1 = given z @ out
     \<and> (length out < CHUNKSIZE \<longrightarrow> inp1 = []
          \<and> (if fin then ret = Z_STREAM_END \<and> given z1 = enc (taken z1)
              else (\<forall>inp2 fin2. pre z1 inp2 fin2)))
     \<and> (length out = CHUNKSIZE \<longrightarrow> pre z1 inp1 fin \<and> pend z1 inp1 fin < pend z inp fin)"
proof -
  note all = assms(1) [unfolded deflate_spec_def, THEN conjunct2, THEN conjunct2,
      THEN conjunct2, THEN conjunct2, rule_format, OF assms(2), unfolded assms(3) prod.case]
  show ?thesis by (rule all)
qed

text \<open>
  \<open>drained\<close> is what the inner loop has come to when it ends: the state of
  \<open>deflate\<close>, the stream and the bytes put out.
\<close>

lemma deflate_drain_spec:
  assumes S: "deflate_spec C enc pre taken given pend"
  shows "pre z inp fin \<Longrightarrow> over old a c \<Longrightarrow>
     \<exists>ret z' a' outs.
       deflate_drain C fin \<lparr>dl_strm = z, dl_in = inp, dl_archive = a, dl_crc = crc\<rparr>
         = Some (Inr (ret, \<lparr>dl_strm = z', dl_in = [], dl_archive = a',
                            dl_crc = zcrc32 crc outs\<rparr>))
       \<and> over old a' (c @ outs)
       \<and> taken z' = taken z @ inp \<and> given z' = given z @ outs
       \<and> (if fin then ret = Z_STREAM_END \<and> given z' = enc (taken z')
           else (\<forall>inp2 fin2. pre z' inp2 fin2))"
proof (induction "pend z inp fin" arbitrary: z inp a c crc rule: less_induct)
  case less
  obtain ret z1 inp1 out where d: "deflate C z inp fin CHUNKSIZE = (ret, z1, inp1, out)"
    by (cases "deflate C z inp fin CHUNKSIZE") auto
  note step = deflate_spec_step [OF S less.prems(1) d]
  note post = step [THEN conjunct1]
    step [THEN conjunct2, THEN conjunct1]
    step [THEN conjunct2, THEN conjunct2, THEN conjunct1]
    step [THEN conjunct2, THEN conjunct2, THEN conjunct2, THEN conjunct1]
    step [THEN conjunct2, THEN conjunct2, THEN conjunct2, THEN conjunct2, THEN conjunct1]
    step [THEN conjunct2, THEN conjunct2, THEN conjunct2, THEN conjunct2, THEN conjunct2]
  note w = swrite_over [OF less.prems(2), of out]
  have pass: "deflate_pass C fin \<lparr>dl_strm = z, dl_in = inp, dl_archive = a, dl_crc = crc\<rparr>
     = Inr (ret, length out = CHUNKSIZE,
         \<lparr>dl_strm = z1, dl_in = inp1, dl_archive = swrite a out, dl_crc = zcrc32 crc out\<rparr>)"
    using deflate_pass_over [OF d post(1,2) less.prems(2)] .
  show ?case
  proof (cases "length out = CHUNKSIZE")
    case False
    then have lt: "length out < CHUNKSIZE" using post(2) by simp
    have "deflate_drain C fin \<lparr>dl_strm = z, dl_in = inp, dl_archive = a, dl_crc = crc\<rparr>
       = Some (Inr (ret, \<lparr>dl_strm = z1, dl_in = [], dl_archive = swrite a out,
                           dl_crc = zcrc32 crc out\<rparr>))"
      using pass False post(5) lt by (subst deflate_drain.simps) simp
    moreover have "taken z1 = taken z @ inp" using post(3,5) lt by simp
    ultimately show ?thesis using w post(4,5) lt by blast
  next
    case True
    then have p1: "pre z1 inp1 fin" and dec: "pend z1 inp1 fin < pend z inp fin"
      using post(6) by simp_all
    obtain ret' z' a' outs where
      r: "deflate_drain C fin
            \<lparr>dl_strm = z1, dl_in = inp1, dl_archive = swrite a out, dl_crc = zcrc32 crc out\<rparr>
          = Some (Inr (ret', \<lparr>dl_strm = z', dl_in = [], dl_archive = a',
                              dl_crc = zcrc32 (zcrc32 crc out) outs\<rparr>))"
      and a': "over old a' ((c @ out) @ outs)"
      and tg: "taken z' = taken z1 @ inp1" "given z' = given z1 @ outs"
      and fin: "if fin then ret' = Z_STREAM_END \<and> given z' = enc (taken z')
           else (\<forall>inp2 fin2. pre z' inp2 fin2)"
      using less.hyps [OF dec p1 w, of "zcrc32 crc out"] by blast
    have "deflate_drain C fin \<lparr>dl_strm = z, dl_in = inp, dl_archive = a, dl_crc = crc\<rparr>
       = Some (Inr (ret', \<lparr>dl_strm = z', dl_in = [], dl_archive = a',
                            dl_crc = zcrc32 crc (out @ outs)\<rparr>))"
      using pass True r by (subst deflate_drain.simps) (simp add: zcrc32_append)
    moreover have "over old a' (c @ out @ outs)" using a' by simp
    moreover have "taken z' = taken z @ inp" using tg(1) post(3) by simp
    moreover have "given z' = given z @ out @ outs" using tg(2) post(4) by simp
    ultimately show ?thesis using fin by blast
  qed
qed

lemma compress_chunks_spec:
  "deflate_spec C enc pre taken given pend \<Longrightarrow> (\<forall>inp fin. pre z inp fin) \<Longrightarrow> over old a c \<Longrightarrow>
     \<exists>z' a' outs.
       compress_chunks C rest z a crc = Some (Done (Z_OK, a', zcrc32 crc outs))
       \<and> over old a' (c @ outs)
       \<and> taken z' = taken z @ rest \<and> given z' = given z @ outs
       \<and> given z' = enc (taken z')"
proof (induction C rest z a crc arbitrary: c rule: compress_chunks.induct)
  case (1 C rest z a crc)
  note S = "1.prems"(1)
  let ?fin = "length rest < CHUNKSIZE"
  have "pre z (take CHUNKSIZE rest) ?fin" using "1.prems"(2) by simp
  then obtain ret z1 a1 outs where
    r: "deflate_drain C ?fin
          \<lparr>dl_strm = z, dl_in = take CHUNKSIZE rest, dl_archive = a, dl_crc = crc\<rparr>
        = Some (Inr (ret, \<lparr>dl_strm = z1, dl_in = [], dl_archive = a1,
                          dl_crc = zcrc32 crc outs\<rparr>))"
    and a1: "over old a1 (c @ outs)"
    and tg: "taken z1 = taken z @ take CHUNKSIZE rest" "given z1 = given z @ outs"
    and fin: "if ?fin then ret = Z_STREAM_END \<and> given z1 = enc (taken z1)
         else (\<forall>inp2 fin2. pre z1 inp2 fin2)"
    using deflate_drain_spec [OF S _ "1.prems"(3), of z "take CHUNKSIZE rest" ?fin crc] by blast
  show ?case
  proof (cases ?fin)
    case True
    then have tk: "take CHUNKSIZE rest = rest" by simp
    have "compress_chunks C rest z a crc = Some (Done (Z_OK, a1, zcrc32 crc outs))"
      using r True fin by (simp add: compress_chunks.simps [of C rest z a crc] Let_def)
    moreover have "taken z1 = taken z @ rest" using tg(1) tk by simp
    moreover have "given z1 = enc (taken z1)" using fin True by simp
    ultimately show ?thesis using a1 tg(2) by blast
  next
    case False
    then have p1: "\<forall>inp fin. pre z1 inp fin" using fin by simp
    have ny: "\<not> dl_in \<lparr>dl_strm = z1, dl_in = [], dl_archive = a1, dl_crc = zcrc32 crc outs\<rparr> \<noteq> []"
      by simp
    have "\<exists>z' a' outs'.
       compress_chunks C (drop CHUNKSIZE rest) z1 a1 (zcrc32 crc outs)
            = Some (Done (Z_OK, a', zcrc32 (zcrc32 crc outs) outs'))
       \<and> over old a' ((c @ outs) @ outs')
       \<and> taken z' = taken z1 @ drop CHUNKSIZE rest \<and> given z' = given z1 @ outs'
       \<and> given z' = enc (taken z')"
      using "1.IH" [OF refl r refl refl ny False S, of "c @ outs"] p1 a1 by simp
    then obtain z' a' outs' where
      c': "compress_chunks C (drop CHUNKSIZE rest) z1 a1 (zcrc32 crc outs)
            = Some (Done (Z_OK, a', zcrc32 (zcrc32 crc outs) outs'))"
      and a': "over old a' ((c @ outs) @ outs')"
      and tg': "taken z' = taken z1 @ drop CHUNKSIZE rest" "given z' = given z1 @ outs'"
        "given z' = enc (taken z')"
      by blast
    have "compress_chunks C rest z a crc = Some (Done (Z_OK, a', zcrc32 crc (outs @ outs')))"
      using r False c'
      by (simp add: compress_chunks.simps [of C rest z a crc] Let_def zcrc32_append)
    moreover have "over old a' (c @ outs @ outs')" using a' by simp
    moreover have "taken z' = taken z @ rest" using tg'(1) tg(1) by simp
    moreover have "given z' = given z @ outs @ outs'" using tg'(2) tg(2) by simp
    ultimately show ?thesis using tg'(3) by blast
  qed
qed

lemma zlibCompressFileToArchive_ok:
  assumes "deflate_ok C enc" and "over old a c"
  shows "\<exists>a'. zlibCompressFileToArchive C bs a e
            = Some (Done (Z_OK, a', e\<lparr>crc32 := zcrc32 (crc32 e) (enc bs)\<rparr>))
          \<and> over old a' (c @ enc bs)"
proof -
  obtain pre taken given pend where S: "deflate_spec C enc pre taken given pend"
    using assms(1) unfolding deflate_ok_def by blast
  let ?z = "snd (deflateInit C)"
  have i: "fst (deflateInit C) = Z_OK" "\<forall>inp fin. pre ?z inp fin" "taken ?z = []" "given ?z = []"
    using S unfolding deflate_spec_def by simp_all
  obtain z' a' outs where
    c': "compress_chunks C bs ?z a (crc32 e) = Some (Done (Z_OK, a', zcrc32 (crc32 e) outs))"
    and a': "over old a' (c @ outs)"
    and tg: "taken z' = taken ?z @ bs" "given z' = given ?z @ outs" "given z' = enc (taken z')"
    using compress_chunks_spec [OF S i(2) assms(2), of bs "crc32 e"] by blast
  have "given z' = outs" "taken z' = bs" using tg i(3,4) by simp_all
  then have "outs = enc bs" using tg(3) by simp
  then show ?thesis
    using c' a' i(1) by (simp add: zlibCompressFileToArchive_def split_beta Let_def)
qed

section \<open>Overwriting the destination\<close>

text \<open>
  \<open>writeFiles\<close> changes the checksum, the sizes and the offsets of the entries it
  goes through, and nothing else: the paths, the names, the methods and the flags of the
  queue are as they were.
\<close>

lemma write_one_keeps:
  assumes "write_one C file a e = Some (Done (a', e'))"
  shows "name e' = name e \<and> compressionMethod e' = compressionMethod e
     \<and> fileFlags e' = fileFlags e"
  using assms
  by (auto simp: write_one_def Let_def writeFileToArchive_def zlibCompressFileToArchive_def
      split: if_splits prod.splits option.splits ended.splits)

lemma writeFiles_keeps:
  "writeFiles C fs q a = Some (Done (q', a')) \<Longrightarrow>
     map fst q' = map fst q \<and> map (\<lambda>pe. name (snd pe)) q' = map (\<lambda>pe. name (snd pe)) q
     \<and> map (\<lambda>pe. compressionMethod (snd pe)) q' = map (\<lambda>pe. compressionMethod (snd pe)) q"
proof (induction q arbitrary: a q')
  case Nil
  then show ?case by simp
next
  case (Cons pe q)
  obtain path entry where pe: "pe = (path, entry)" by (cases pe)
  obtain a1 e1 where one: "(case fs path of None \<Rightarrow> Some (Done (a, entry))
        | Some file \<Rightarrow> write_one C file a entry) = Some (Done (a1, e1))"
    using Cons.prems unfolding pe
    by (auto split: option.splits ended.splits)
  obtain q1 where rest: "writeFiles C fs q a1 = Some (Done (q1, a'))" and q': "q' = (path, e1) # q1"
    using Cons.prems one unfolding pe
    by (auto split: option.splits ended.splits)
  have "name e1 = name entry \<and> compressionMethod e1 = compressionMethod entry"
    using one write_one_keeps [of C _ a entry a1 e1] by (auto split: option.splits)
  then show ?case using Cons.IH [OF rest] by (simp add: q' pe)
qed

text \<open>
  C9. With \<open>overwrite\<close> set and a file at the destination, \<open>writeArchive\<close> calls the
  writer's own \<open>removeFile\<close>, which erases the destination from the queue; the file
  system is left as it is until the stream is opened. The call is then the writing of
  the queue without the pair whose path is the destination: that pair is not handed to
  \<open>writeFiles\<close>, and every other pair is, in the order of the queue. Whenever the call
  returns, it returns \<open>true\<close>, the queue is left with the paths, names and methods of
  those other pairs, their entries are the table of the archive, and the file system
  differs at the destination only.
\<close>

theorem writeArchive_overwrite_erases_destination_from_queue:
  assumes "fs destination \<noteq> None"
  shows "writeArchive mkdirs C fs w destination True
           = write_fresh mkdirs C fs (snd (removeFile w destination)) destination
     \<and> snd (removeFile w destination) = filter (\<lambda>pe. fst pe \<noteq> destination) w
     \<and> fst (removeFile w destination) = (destination \<in> fst ` set w)
     \<and> (\<forall>ok fs' w'. writeArchive mkdirs C fs w destination True = Some (Done (ok, fs', w')) \<longrightarrow>
          ok \<and> destination \<notin> fst ` set w'
          \<and> map fst w' = filter (\<lambda>p. p \<noteq> destination) (map fst w)
          \<and> map (\<lambda>pe. name (snd pe)) w'
              = map (\<lambda>pe. name (snd pe)) (filter (\<lambda>pe. fst pe \<noteq> destination) w)
          \<and> map (\<lambda>pe. compressionMethod (snd pe)) w'
              = map (\<lambda>pe. compressionMethod (snd pe)) (filter (\<lambda>pe. fst pe \<noteq> destination) w)
          \<and> (\<exists>a. writeFiles C fs (filter (\<lambda>pe. fst pe \<noteq> destination) w)
                     (writeHeader \<lparr>ocontent = [], ppos = 0, ofail = False\<rparr>)
                   = Some (Done (w', a))
                 \<and> fs' = fs(destination \<mapsto>
                     ocontent (writeTable (writeTableLocation a) (map snd w')))))"
proof -
  let ?q = "filter (\<lambda>pe. fst pe \<noteq> destination) w"
  let ?h = "writeHeader \<lparr>ocontent = [], ppos = 0, ofail = False\<rparr>"
  have eq: "writeArchive mkdirs C fs w destination True
           = write_fresh mkdirs C fs (snd (removeFile w destination)) destination"
    using assms by (simp add: writeArchive_def)
  have rm: "snd (removeFile w destination) = ?q" by (simp add: removeFile_def)
  have found: "fst (removeFile w destination) = (destination \<in> fst ` set w)"
    by (simp add: removeFile_def map_of_eq_None_iff)
  have ret: "ok \<and> destination \<notin> fst ` set w'
          \<and> map fst w' = filter (\<lambda>p. p \<noteq> destination) (map fst w)
          \<and> map (\<lambda>pe. name (snd pe)) w' = map (\<lambda>pe. name (snd pe)) ?q
          \<and> map (\<lambda>pe. compressionMethod (snd pe)) w' = map (\<lambda>pe. compressionMethod (snd pe)) ?q
          \<and> (\<exists>a. writeFiles C fs ?q ?h = Some (Done (w', a))
                 \<and> fs' = fs(destination \<mapsto>
                     ocontent (writeTable (writeTableLocation a) (map snd w'))))"
    if r: "writeArchive mkdirs C fs w destination True = Some (Done (ok, fs', w'))" for ok fs' w'
  proof -
    have wf: "write_fresh mkdirs C fs ?q destination = Some (Done (ok, fs', w'))"
      using r eq rm by simp
    then obtain a where a: "writeFiles C fs ?q ?h = Some (Done (w', a))"
      and ok: "ok"
      and fs': "fs' = fs(destination \<mapsto> ocontent (writeTable (writeTableLocation a) (map snd w')))"
      by (auto simp: write_fresh_def Let_def split: option.splits ended.splits if_splits)
    note k = writeFiles_keeps [OF a]
    have paths: "map fst w' = filter (\<lambda>p. p \<noteq> destination) (map fst w)"
      using k by (simp add: filter_map comp_def)
    have "set (map fst w') = {p \<in> fst ` set w. p \<noteq> destination}"
      unfolding paths by auto
    then have "destination \<notin> fst ` set w'" by auto
    then show ?thesis using ok paths k a fs' by blast
  qed
  show ?thesis using eq rm found ret by blast
qed

text \<open>
  An instance: the files 0 and 1 exist, both are queued, and the archive is written to
  path 0 with \<open>overwrite\<close>. The entry queued for path 0 is gone from the queue, and
  the call returns with the entry of path 1 alone.
\<close>

definition two_files :: "nat filesystem" where
  "two_files = (\<lambda>p. if p = 0 then Some [9] else if p = 1 then Some [7] else None)"

definition queue2 :: "nat queue" where
  "queue2 = [(0, TableEntry_new [0x61] NONE \<lparr>encrypted = False\<rparr>),
             (1, TableEntry_new [0x62] NONE \<lparr>encrypted = False\<rparr>)]"

theorem writeArchive_overwrite_erases_destination_from_queue_witness:
  "two_files 0 \<noteq> None
   \<and> fst (removeFile queue2 0)
   \<and> snd (removeFile queue2 0) = [(1, TableEntry_new [0x62] NONE \<lparr>encrypted = False\<rparr>)]
   \<and> (\<exists>fs' w'. writeArchive (\<lambda>p. True) toy_compressor two_files queue2 0 True = Some (Done (True, fs', w'))
         \<and> map fst w' = [1] \<and> map (\<lambda>pe. name (snd pe)) w' = [[0x62]]
         \<and> fs' 1 = two_files 1)"
proof -
  have ex: "two_files 0 \<noteq> None" by (simp add: two_files_def)
  note t = writeArchive_overwrite_erases_destination_from_queue
    [where fs = two_files and destination = 0 and C = toy_compressor and w = queue2
      and mkdirs = "\<lambda>p. True", OF ex]
  have rm: "filter (\<lambda>pe. fst pe \<noteq> 0) queue2 = [(1, TableEntry_new [0x62] NONE \<lparr>encrypted = False\<rparr>)]"
    by (simp add: queue2_def)
  have found: "(0 :: nat) \<in> fst ` set queue2" by (simp add: queue2_def)
  obtain fs' w' where r: "write_fresh (\<lambda>p. True) toy_compressor two_files
        [(1, TableEntry_new [0x62] NONE \<lparr>encrypted = False\<rparr>)] 0 = Some (Done (True, fs', w'))"
    by (simp add: write_fresh_def write_one_def two_files_def TableEntry_new_def
        TableEntry_default_def Let_def split_beta)
  then have r': "writeArchive (\<lambda>p. True) toy_compressor two_files queue2 0 True = Some (Done (True, fs', w'))"
    using t rm by simp
  note k = t [THEN conjunct2, THEN conjunct2, THEN conjunct2, rule_format, OF r']
  have p: "map fst w' = [1]" using k by (simp add: queue2_def)
  have n: "map (\<lambda>pe. name (snd pe)) w' = [[0x62]]"
    using k unfolding rm by (simp add: TableEntry_new_def)
  have f: "fs' 1 = two_files 1" using k by auto
  have s: "snd (removeFile queue2 0) = [(1, TableEntry_new [0x62] NONE \<lparr>encrypted = False\<rparr>)]"
    using t rm by simp
  have "\<exists>fs' w'. writeArchive (\<lambda>p. True) toy_compressor two_files queue2 0 True = Some (Done (True, fs', w'))
         \<and> map fst w' = [1] \<and> map (\<lambda>pe. name (snd pe)) w' = [[0x62]]
         \<and> fs' 1 = two_files 1"
    by (rule exI [of _ fs'], rule exI [of _ w']) (use r' p n f in simp)
  moreover have "fst (removeFile queue2 0)" using t found by simp
  ultimately show ?thesis using ex s by simp
qed

section \<open>The bytes of a written archive\<close>

text \<open>
  \<open>stored enc m file\<close> is what \<open>writeFiles\<close> puts into the archive for a source
  file under the method \<open>m\<close>, where \<open>enc\<close> is the stream \<open>deflate\<close> makes:
  nothing for a method that is neither \<open>NONE\<close> nor \<open>ZLIB\<close>. \<open>placed\<close> is the
  entry afterwards, for a payload that begins at \<open>off\<close>. The checksum of a \<open>ZLIB\<close>
  payload is continued from the checksum the entry came with.
\<close>

definition stored :: "(byte list \<Rightarrow> byte list) \<Rightarrow> CompressionMethod \<Rightarrow> byte list \<Rightarrow> byte list" where
  "stored enc m file = (if m = NONE then file else if m = ZLIB then enc file else [])"

definition placed :: "(byte list \<Rightarrow> byte list) \<Rightarrow> nat \<Rightarrow> byte list \<Rightarrow> TableEntry \<Rightarrow> TableEntry" where
  "placed enc off file e =
     e\<lparr>crc32 := zcrc32 (if compressionMethod e = NONE then 0 else crc32 e)
                  (stored enc (compressionMethod e) file),
       originalSize := of_nat (length file),
       dataStart := of_nat off,
       dataEnd := of_nat (off + length (stored enc (compressionMethod e) file))\<rparr>"

lemma NONE_neq_ZLIB: "NONE \<noteq> ZLIB"
  by (simp add: NONE_def ZLIB_def)

lemma write_one_placed:
  assumes "deflate_ok C enc" and "over old a c"
  shows "\<exists>a'. write_one C file a e = Some (Done (a', placed enc (length c) file e))
           \<and> over old a' (c @ stored enc (compressionMethod e) file)"
proof -
  have t: "tellp a = of_nat (length c)" using assms(2) by (rule tellp_over)
  let ?e = "e\<lparr>dataStart := of_nat (length c), originalSize := of_nat (length file)\<rparr>"
  consider (none) "compressionMethod e = NONE"
    | (zlib) "compressionMethod e = ZLIB"
    | (other) "compressionMethod e \<noteq> NONE" "compressionMethod e \<noteq> ZLIB"
    by blast
  then show ?thesis
  proof cases
    case none
    note w = writeFileToArchive_over [OF assms(2), of "file" ?e]
    have t': "tellp (fst (writeFileToArchive file a ?e)) = of_nat (length c + length file)"
      using tellp_over [OF w(1)] by simp
    have "write_one C file a e
        = Some (Done (fst (writeFileToArchive file a ?e), placed enc (length c) file e))"
      using none w(2) t'
      by (simp add: write_one_def Let_def t split_beta placed_def stored_def)
    then show ?thesis using w(1) none by (auto simp: stored_def)
  next
    case zlib
    obtain a' where z: "zlibCompressFileToArchive C file a ?e
            = Some (Done (Z_OK, a', ?e\<lparr>crc32 := zcrc32 (crc32 ?e) (enc file)\<rparr>))"
      and o: "over old a' (c @ enc file)"
      using zlibCompressFileToArchive_ok [OF assms, of "file" ?e] by blast
    have t': "tellp a' = of_nat (length c + length (enc file))"
      using tellp_over [OF o] by simp
    have "write_one C file a e = Some (Done (a', placed enc (length c) file e))"
      using zlib z t' NONE_neq_ZLIB
      by (simp add: write_one_def Let_def t placed_def stored_def)
    then show ?thesis using o zlib NONE_neq_ZLIB by (auto simp: stored_def)
  next
    case other
    have "zcrc32 (crc32 e) [] = crc32 e" by (simp add: zcrc32_Nil)
    then have "write_one C file a e = Some (Done (a, placed enc (length c) file e))"
      using other by (simp add: write_one_def Let_def t placed_def stored_def)
    then show ?thesis using assms(2) other by (auto simp: stored_def)
  qed
qed

text \<open>
  \<open>laid enc fs q off\<close>: the queue as \<open>writeFiles\<close> leaves it and the bytes it
  writes, when the first payload begins at \<open>off\<close>. A source file that is not there
  leaves its entry as it was and contributes no bytes.
\<close>

fun laid :: "(byte list \<Rightarrow> byte list) \<Rightarrow> 'p filesystem \<Rightarrow> 'p queue \<Rightarrow> nat
    \<Rightarrow> 'p queue \<times> byte list" where
  "laid enc fs [] off = ([], [])"
| "laid enc fs ((path, entry) # q) off =
     (case fs path of
        None \<Rightarrow> (case laid enc fs q off of (q', bs) \<Rightarrow> ((path, entry) # q', bs))
      | Some file \<Rightarrow>
          (case laid enc fs q (off + length (stored enc (compressionMethod entry) file)) of
             (q', bs) \<Rightarrow> ((path, placed enc off file entry) # q',
                          stored enc (compressionMethod entry) file @ bs)))"

lemma writeFiles_laid:
  assumes "deflate_ok C enc"
  shows "over old a c \<Longrightarrow>
     \<exists>a'. writeFiles C fs q a = Some (Done (fst (laid enc fs q (length c)), a'))
        \<and> over old a' (c @ snd (laid enc fs q (length c)))"
proof (induction q arbitrary: a c)
  case Nil
  then show ?case by simp
next
  case (Cons pe q)
  obtain path entry where pe: "pe = (path, entry)" by (cases pe)
  show ?case
  proof (cases "fs path")
    case None
    obtain a' where r: "writeFiles C fs q a = Some (Done (fst (laid enc fs q (length c)), a'))"
      and o: "over old a' (c @ snd (laid enc fs q (length c)))"
      using Cons.IH [OF Cons.prems] by blast
    show ?thesis
      using None r o by (simp add: pe split_beta)
  next
    case (Some src)
    let ?s = "stored enc (compressionMethod entry) src"
    obtain a1 where one: "write_one C src a entry
          = Some (Done (a1, placed enc (length c) src entry))"
      and o1: "over old a1 (c @ ?s)"
      using write_one_placed [OF assms Cons.prems, of src entry] by blast
    obtain a' where r: "writeFiles C fs q a1
          = Some (Done (fst (laid enc fs q (length (c @ ?s))), a'))"
      and o: "over old a' ((c @ ?s) @ snd (laid enc fs q (length (c @ ?s))))"
      using Cons.IH [OF o1] by blast
    show ?thesis
      using Some one r o by (simp add: pe split_beta)
  qed
qed

lemma laid_paths: "map fst (fst (laid enc fs q off)) = map fst q"
  by (induction q arbitrary: off) (auto simp: split_beta split: option.splits)

lemma length_laid: "length (fst (laid enc fs q off)) = length q"
  using laid_paths [of enc fs q off] by (metis length_map)

text \<open>
  \<open>archive_bytes dat es\<close>: a file with the header, the data region \<open>dat\<close> and the
  table of the entries \<open>es\<close> behind it.
\<close>

definition archive_bytes :: "byte list \<Rightarrow> TableEntry list \<Rightarrow> byte list" where
  "archive_bytes dat es =
     DATFILESIGNATURE @ [DATFILEVERSION] @ bytes_of_u64 (of_nat (13 + length dat)) @ dat
     @ concat (map entry_bytes es)"

lemma writeHeader_over:
  "over [] (writeHeader \<lparr>ocontent = [], ppos = 0, ofail = False\<rparr>)
     (DATFILESIGNATURE @ [DATFILEVERSION] @ replicate 8 0)"
proof -
  note s1 = swrite_over [OF over_fresh, of DATFILESIGNATURE]
  note s2 = swrite_over [OF s1, of "[DATFILEVERSION]"]
  note s3 = swrite_over [OF s2, of "replicate 8 0"]
  show ?thesis using s3 by (simp add: writeHeader_def)
qed

lemma write_fresh_bytes:
  assumes "deflate_ok C enc" and "13 + length (snd (laid enc fs w 13)) < 2 ^ 63"
    and "mkdirs destination"
  shows "write_fresh mkdirs C fs w destination
     = Some (Done (True,
          fs(destination \<mapsto> archive_bytes (snd (laid enc fs w 13)) (map snd (fst (laid enc fs w 13)))),
          fst (laid enc fs w 13)))"
proof -
  let ?h = "DATFILESIGNATURE @ [DATFILEVERSION] @ replicate 8 0"
  let ?dat = "snd (laid enc fs w 13)"
  let ?w' = "fst (laid enc fs w 13)"
  have lh: "length ?h = 13" by (simp add: DATFILESIGNATURE_def)
  obtain a where r: "writeFiles C fs w (writeHeader \<lparr>ocontent = [], ppos = 0, ofail = False\<rparr>)
        = Some (Done (?w', a))"
    and o: "over [] a (?h @ ?dat)"
    using writeFiles_laid [OF assms(1) writeHeader_over, of fs w] unfolding lh by blast
  have "over [] (writeTableLocation a)
      (take 5 (?h @ ?dat) @ bytes_of_u64 (of_nat (length (?h @ ?dat))) @ drop 13 (?h @ ?dat))"
    using o by (rule writeTableLocation_over) (use assms(2) in \<open>simp_all add: DATFILESIGNATURE_def\<close>)
  then have "over [] (writeTableLocation a)
      (DATFILESIGNATURE @ [DATFILEVERSION] @ bytes_of_u64 (of_nat (13 + length ?dat)) @ ?dat)"
    by (simp add: DATFILESIGNATURE_def)
  then have "over [] (writeTable (writeTableLocation a) (map snd ?w'))
      ((DATFILESIGNATURE @ [DATFILEVERSION] @ bytes_of_u64 (of_nat (13 + length ?dat)) @ ?dat)
        @ concat (map entry_bytes (map snd ?w')))"
    by (rule writeTable_over)
  then have "ocontent (writeTable (writeTableLocation a) (map snd ?w'))
      = archive_bytes ?dat (map snd ?w')"
    using over_Nil by (fastforce simp: archive_bytes_def)
  then show ?thesis
    using r assms(3) by (simp add: write_fresh_def Let_def)
qed

section \<open>Reading back a table that was written\<close>

lemma of_nat_le_nat_le_bytes_32: "of_nat (le_nat (le_bytes 4 (unat (w :: uint32_t)))) = w"
proof -
  have "unat w < 2 ^ 32" using unsigned_less [of w] by simp
  then show ?thesis using le_nat_le_bytes [of 4 "unat w"] by simp
qed

lemma of_nat_le_nat_le_bytes_64: "of_nat (le_nat (le_bytes 8 (unat (w :: uint64_t)))) = w"
proof -
  have "unat w < 2 ^ 64" using unsigned_less [of w] by simp
  then show ?thesis using le_nat_le_bytes [of 8 "unat w"] by simp
qed

lemma u32_after_bytes: "u32_after (bytes_of_u32 w) old = w"
  by (simp add: u32_after_def overlay_def of_nat_le_nat_le_bytes_32 [unfolded bytes_of_u32_def [symmetric]]
      bytes_of_u32_def [symmetric])

lemma u64_after_bytes: "u64_after (bytes_of_u64 w) old = w"
  by (simp add: u64_after_def overlay_def of_nat_le_nat_le_bytes_64 [unfolded bytes_of_u64_def [symmetric]]
      bytes_of_u64_def [symmetric])

lemma Flags_after_byte: "Flags_after [byte_of_Flags f] old = f"
  by (cases f) (simp add: Flags_after_def byte_of_Flags_def)

lemma unat_of_nat_16: "n < 65536 \<Longrightarrow> unat (of_nat n :: uint16_t) = n"
  by (simp add: unat_of_nat)

lemma le_nat_name_length:
  assumes "n < 65536"
  shows "le_nat (take 2 (bytes_of_u16 (of_nat n) @ rest)) = n"
proof -
  have "le_nat (le_bytes 2 n) = n" using le_nat_le_bytes [of 2 n] assms by simp
  then show ?thesis using assms by (simp add: bytes_of_u16_def unat_of_nat_16)
qed

text \<open>
  A record whose name is shorter than \<open>65536\<close> bytes is read back as the entry it was
  written from.
\<close>

lemma entry_of_bytes_entry_bytes:
  assumes "length (name e) < 65536"
  shows "entry_of_bytes (length (name e)) (drop 2 (entry_bytes e) @ rest) = e"
proof -
  let ?L = "length (name e)"
  have b: "drop 2 (entry_bytes e) @ rest
      = name e @ [compressionMethod e] @ [byte_of_Flags (fileFlags e)]
        @ bytes_of_u32 (crc32 e) @ bytes_of_u64 (originalSize e)
        @ bytes_of_u64 (dataStart e) @ bytes_of_u64 (dataEnd e) @ rest"
    using assms by (simp add: entry_bytes_def unat_of_nat_16)
  have d: "\<And>k xs. drop (?L + k) (name e @ xs) = drop k xs"
    by (simp add: add.commute)
  have d0: "\<And>xs. drop ?L (name e @ xs) = xs" by simp
  have "entry_of_bytes ?L (drop 2 (entry_bytes e) @ rest)
      = \<lparr>name = name e, compressionMethod = compressionMethod e, fileFlags = fileFlags e,
         crc32 = crc32 e, originalSize = originalSize e, dataStart = dataStart e,
         dataEnd = dataEnd e\<rparr>"
    unfolding b entry_of_bytes_def d d0
    by (simp add: overlay_def u8_after_def Flags_after_byte u32_after_bytes u64_after_bytes)
  then show ?thesis by simp
qed

lemma length_entry_bytes:
  "length (name e) < 65536 \<Longrightarrow> length (entry_bytes e) = length (name e) + 32"
  by (simp add: entry_bytes_def unat_of_nat_16)

text \<open>The index after a list of entries has gone into it one by one.\<close>

definition index_of :: "TableEntry list \<Rightarrow> (byte list \<times> TableEntry) list
    \<Rightarrow> (byte list \<times> TableEntry) list" where
  "index_of es acc = foldl (\<lambda>acc e. emplace (name e) e acc) acc es"

lemma parse_table_entry_bytes:
  "\<forall>e \<in> set es. length (name e) < 65536 \<Longrightarrow>
     parse_table (concat (map entry_bytes es)) acc = index_of es acc"
proof (induction es arbitrary: acc)
  case Nil
  then show ?case by (simp add: parse_table_Nil index_of_def)
next
  case (Cons e es)
  let ?b = "entry_bytes e @ concat (map entry_bytes es)"
  have n: "length (name e) < 65536" using Cons.prems by simp
  have len: "length (entry_bytes e) = length (name e) + 32" using n by (rule length_entry_bytes)
  have L: "le_nat (take 2 ?b) = length (name e)"
    using le_nat_name_length [OF n] by (simp add: entry_bytes_def)
  have d2: "drop 2 ?b = drop 2 (entry_bytes e) @ concat (map entry_bytes es)"
    using len by simp
  have ent: "entry_of_bytes (length (name e)) (drop 2 ?b) = e"
    unfolding d2 using n by (rule entry_of_bytes_entry_bytes)
  have r: "drop (length (name e) + 30) (drop 2 ?b) = concat (map entry_bytes es)"
    using len by (simp add: add.commute)
  have nl: "(length ?b < 2) = False" using len by simp
  have "parse_table ?b acc =
     (if length ?b < 2 then acc
      else
        let entry = entry_of_bytes (le_nat (take 2 ?b)) (drop 2 ?b)
        in parse_table (drop (le_nat (take 2 ?b) + 30) (drop 2 ?b)) (emplace (name entry) entry acc))"
    by (rule parse_table.simps)
  also have "\<dots> = parse_table (concat (map entry_bytes es)) (emplace (name e) e acc)"
    unfolding L ent r nl Let_def by (rule if_False)
  finally have "parse_table ?b acc
      = parse_table (concat (map entry_bytes es)) (emplace (name e) e acc)" .
  then show ?case using Cons.IH [of "emplace (name e) e acc"] Cons.prems
    by (simp add: index_of_def)
qed

lemma index_of_sorted:
  "sorted_wrt (<) (map fst acc) \<Longrightarrow> sorted_wrt (<) (map fst (index_of es acc))"
  unfolding index_of_def
  by (induction es arbitrary: acc) (simp_all add: emplace_sorted)

lemma length_emplace:
  "sorted_wrt (<) (map fst es) \<Longrightarrow>
     length (emplace k v es) = (if k \<in> fst ` set es then length es else Suc (length es))"
  by (induction k v es rule: emplace.induct) (auto simp: image_iff)

lemma index_of_keys: "fst ` set (index_of es acc) = name ` set es \<union> fst ` set acc"
  unfolding index_of_def
  by (induction es arbitrary: acc) (auto simp: emplace_keys)

lemma length_index_of:
  "sorted_wrt (<) (map fst acc) \<Longrightarrow> distinct (map name es)
     \<Longrightarrow> name ` set es \<inter> fst ` set acc = {} \<Longrightarrow>
     length (index_of es acc) = length es + length acc"
proof (induction es arbitrary: acc)
  case Nil
  then show ?case by (simp add: index_of_def)
next
  case (Cons e es)
  have "name e \<notin> fst ` set acc" using Cons.prems(3) by auto
  then have l: "length (emplace (name e) e acc) = Suc (length acc)"
    using Cons.prems(1) by (simp add: length_emplace)
  have "name ` set es \<inter> fst ` set (emplace (name e) e acc) = {}"
    using Cons.prems by (auto simp: emplace_keys)
  then have "length (index_of es (emplace (name e) e acc)) = length es + Suc (length acc)"
    using Cons.IH [OF emplace_sorted [OF Cons.prems(1)], of "name e" e] Cons.prems(2) l by simp
  then show ?case by (simp add: index_of_def)
qed

lemma map_of_index_of_old:
  "sorted_wrt (<) (map fst acc) \<Longrightarrow> map_of acc k = Some v \<Longrightarrow> map_of (index_of es acc) k = Some v"
proof (induction es arbitrary: acc)
  case Nil
  then show ?case by (simp add: index_of_def)
next
  case (Cons e es)
  have "map_of (emplace (name e) e acc) k = Some v"
    using Cons.prems by (auto simp: emplace_map_of split: option.splits)
  then show ?case
    using Cons.IH [of "emplace (name e) e acc"] emplace_sorted [OF Cons.prems(1)]
    by (simp add: index_of_def)
qed

lemma map_of_index_of:
  assumes "sorted_wrt (<) (map fst acc)" and "e \<in> set es" and "distinct (map name es)"
    and "name e \<notin> fst ` set acc"
  shows "map_of (index_of es acc) (name e) = Some e"
  using assms
proof (induction es arbitrary: acc)
  case Nil
  then show ?case by simp
next
  case (Cons x es)
  note srt = emplace_sorted [OF Cons.prems(1), of "name x" x]
  show ?case
  proof (cases "e = x")
    case True
    have "map_of acc (name x) = None"
      using Cons.prems(4) True by (simp add: map_of_eq_None_iff)
    then have "map_of (emplace (name x) x acc) (name x) = Some x"
      using Cons.prems(1) by (simp add: emplace_map_of)
    then show ?thesis
      using map_of_index_of_old [OF srt, of "name x" x es] True by (simp add: index_of_def)
  next
    case False
    then have in_es: "e \<in> set es" using Cons.prems(2) by simp
    then have "name e \<noteq> name x" using Cons.prems(3) by (auto simp: image_iff)
    then have "name e \<notin> fst ` set (emplace (name x) x acc)"
      using Cons.prems(4) by (simp add: emplace_keys)
    then show ?thesis
      using Cons.IH [OF srt in_es] Cons.prems(3) by (simp add: index_of_def)
  qed
qed

section \<open>Opening an archive with a valid header\<close>

lemma sread_stream: "is_open (snd (sread s n)) = is_open s" "badbit (snd (sread s n)) = badbit s"
  by (simp_all add: sread_def)

lemma read_entry_stream:
  "is_open (snd (read_entry s n)) = is_open s" "badbit (snd (read_entry s n)) = badbit s"
  by (simp_all add: read_entry_def Let_def split_beta sread_stream)

lemma loadTable_loop_stream:
  "is_open (fst (loadTable_loop a es)) = is_open a
   \<and> content (fst (loadTable_loop a es)) = content a
   \<and> badbit (fst (loadTable_loop a es)) = badbit a"
proof (induction a es rule: loadTable_loop.induct)
  case (1 a es)
  obtain nl a1 where rd: "sread a 2 = (nl, a1)" by (cases "sread a 2")
  have a1: "is_open a1 = is_open a" "content a1 = content a" "badbit a1 = badbit a"
    using sread_stream [of a 2] sread_content [of a 2] rd by simp_all
  show ?case
  proof (cases "fail a1")
    case True
    then show ?thesis using rd a1 by (simp add: loadTable_loop.simps [of a es])
  next
    case False
    obtain entry a8 where re: "read_entry a1 (le_nat nl) = (entry, a8)"
      by (cases "read_entry a1 (le_nat nl)")
    have a8: "is_open a8 = is_open a" "content a8 = content a" "badbit a8 = badbit a"
      using read_entry_stream [of a1 "le_nat nl"] read_entry_content [of a1 "le_nat nl"] re a1
      by simp_all
    show ?thesis
      using "1.IH" [OF rd [symmetric] False re [symmetric]] rd re False a8
      by (simp add: loadTable_loop.simps [of a es])
  qed
qed

text \<open>
  \<open>opened c T es\<close>: a reader that is open and not bad on the bytes \<open>c\<close>, with the
  table offset \<open>T\<close> and the index \<open>es\<close>, its stream good and at \<open>pos\<close>.
\<close>

definition opened :: "byte list \<Rightarrow> uint64_t \<Rightarrow> (byte list \<times> TableEntry) list \<Rightarrow> nat \<Rightarrow> Reader" where
  "opened c T es pos =
     \<lparr>archive = \<lparr>is_open = True, content = c, gpos = pos,
                  eofbit = False, failbit = False, badbit = False\<rparr>,
      archiveVersion = DATFILEVERSION, tableOffset = T, entries = es,
      openFlag = True, badFlag = False\<rparr>"

lemma loadTable_opened:
  assumes "T \<noteq> 0" and "0 \<le> sint T"
  shows "loadTable (opened c T [] pos) = (True, opened c T (parse_table (drop (unat T) c) []) 0)"
proof -
  let ?r = "opened c T [] pos"
  let ?a = "seekg (archive ?r) (tableOffset ?r)"
  have h: "is_open (archive ?r)" "\<not> failbit (archive ?r)" "\<not> badbit (archive ?r)"
    "tableOffset ?r \<noteq> 0" "0 \<le> sint (tableOffset ?r)"
    using assms by (simp_all add: opened_def)
  note sk = seekg_presents [OF h(1,2,3,5)]
  have sa: "is_open ?a" "content ?a = c" "\<not> badbit ?a"
    using assms(2) by (simp_all add: opened_def seekg_def Let_def good_def)
  note st = loadTable_loop_stream [of ?a "[]"]
  have es: "snd (loadTable_loop ?a []) = parse_table (drop (unat T) c) []"
    using loadTable_loop_presents [OF sk(1), of "[]"] by (simp add: opened_def)
  define a' where "a' = fst (loadTable_loop ?a [])"
  have a': "is_open a'" "content a' = c" "\<not> badbit a'"
    using st sa by (simp_all add: a'_def)
  have fin: "seekg (sclear a') 0
      = \<lparr>is_open = True, content = c, gpos = 0, eofbit = False, failbit = False, badbit = False\<rparr>"
    using a' by (simp add: seekg_def sclear_def Let_def good_def)
  have "loadTable ?r = (True, ?r\<lparr>archive := seekg (sclear a') 0,
            entries := parse_table (drop (unat T) c) []\<rparr>)"
    using sk(2) h(4) es
    by (simp add: loadTable_def Let_def split_beta a'_def entries_def [symmetric])
       (simp add: opened_def)
  then show ?thesis by (simp add: fin opened_def)
qed

lemma DatArchiveReader_valid:
  assumes "fs p = Some c"
    and "c = DATFILESIGNATURE @ [DATFILEVERSION] @ bytes_of_u64 T @ body"
    and "T \<noteq> 0" and "0 \<le> sint T"
  shows "DatArchiveReader fs p = opened c T (parse_table (drop (unat T) c) []) 0"
proof -
  let ?a = "\<lparr>is_open = True, content = c, gpos = 0,
      eofbit = False, failbit = False, badbit = False\<rparr>"
  have lc: "length c = 13 + length body" by (simp add: assms(2) DATFILESIGNATURE_def)
  have sop: "sopen fs ifstream_new p = ?a"
    using assms(1) by (simp add: sopen_def ifstream_new_def)
  have r4: "sread ?a 4 = (DATFILESIGNATURE,
      \<lparr>is_open = True, content = c, gpos = 4, eofbit = False, failbit = False, badbit = False\<rparr>)"
    using lc by (simp add: sread_def good_def remaining_def assms(2) DATFILESIGNATURE_def)
  have r1: "sread \<lparr>is_open = True, content = c, gpos = 4, eofbit = False, failbit = False, badbit = False\<rparr> (Suc 0)
      = ([DATFILEVERSION],
         \<lparr>is_open = True, content = c, gpos = 5, eofbit = False, failbit = False, badbit = False\<rparr>)"
    using lc by (simp add: sread_def good_def remaining_def assms(2) DATFILESIGNATURE_def)
  have r8: "sread \<lparr>is_open = True, content = c, gpos = 5, eofbit = False, failbit = False, badbit = False\<rparr> 8
      = (bytes_of_u64 T,
         \<lparr>is_open = True, content = c, gpos = 13, eofbit = False, failbit = False, badbit = False\<rparr>)"
    using lc by (simp add: sread_def good_def remaining_def assms(2) DATFILESIGNATURE_def)
  have v: "validateArchive (overlay DATFILESIGNATURE (replicate 4 0)) DATFILEVERSION"
    by (simp add: validateArchive_def overlay_def DATFILESIGNATURE_def)
  have "openArchive fs Reader_new p = loadTable (opened c T [] 13)"
    using assms(1) v
    by (simp add: openArchive_def Let_def sop fail_def r4 r1 r8 u8_after_def u64_after_bytes
        opened_def Reader_new_def)
  then show ?thesis
    using loadTable_opened [OF assms(3,4), of c 13] by (simp add: DatArchiveReader_def)
qed

section \<open>Exceptions\<close>





















section \<open>Extraction from an opened archive\<close>

lemma uInt_of_nat: "n < 2 ^ 32 \<Longrightarrow> uInt (of_nat n) = n"
  by (simp add: uInt_def ucast_of_nat_64_32 unat_of_nat)

lemma of_nat_diff_64: "(of_nat (s + n) :: uint64_t) - of_nat s = of_nat n"
  by simp

lemma of_nat_less_64:
  assumes "a < 2 ^ 64" and "b < 2 ^ 64"
  shows "((of_nat a :: uint64_t) < of_nat b) = (a < b)"
  using assms by (simp add: word_less_nat_alt unat_of_nat_64)

lemma of_nat_eq_0_64:
  assumes "n < 2 ^ 64"
  shows "((of_nat n :: uint64_t) = 0) = (n = 0)"
proof
  assume "(of_nat n :: uint64_t) = 0"
  then have "unat (of_nat n :: uint64_t) = 0" by simp
  then show "n = 0" using unat_of_nat_64 [OF assms] by simp
next
  assume "n = 0"
  then show "(of_nat n :: uint64_t) = 0" by simp
qed

text \<open>
  The stream of an opened reader, and what a seek and a read of bytes that are there do
  to it.
\<close>

definition stream_at :: "byte list \<Rightarrow> nat \<Rightarrow> ifstream" where
  "stream_at c pos = \<lparr>is_open = True, content = c, gpos = pos,
     eofbit = False, failbit = False, badbit = False\<rparr>"

lemma archive_opened: "archive (opened c T es pos) = stream_at c pos"
  by (simp add: opened_def stream_at_def)

lemma opened_archive_update: "(opened c T es pos)\<lparr>archive := stream_at c pos'\<rparr> = opened c T es pos'"
  by (simp add: opened_def stream_at_def)

lemma seekg_stream_at: "s < 2 ^ 63 \<Longrightarrow> seekg (stream_at c pos) (of_nat s) = stream_at c s"
  using sint_of_nat_64 [of s]
  by (simp add: seekg_def stream_at_def Let_def good_def unat_of_nat_64)

lemma sread64_stream_at:
  assumes "pos + n \<le> length c" and "n < 2 ^ 63"
  shows "sread64 (stream_at c pos) (of_nat n) = (take n (drop pos c), stream_at c (pos + n))"
  using assms sint_of_nat_64 [of n]
  by (simp add: sread64_def sread_def stream_at_def good_def remaining_def unat_of_nat_64)

lemma tellg_stream_at: "tellg (stream_at c pos) = (of_nat pos, stream_at c pos)"
  by (simp add: tellg_def stream_at_def good_def)

lemma bad_stream_at: "\<not> bad (stream_at c pos)"
  by (simp add: bad_def stream_at_def)

lemma extractFile_opened:
  assumes "dataStart e = of_nat s" and "dataEnd e = of_nat (s + n)"
    and "s + n \<le> length c" and "length c < 2 ^ 63" and "n < 2 ^ 32"
    and "crc32 e = zcrc32 0 (take n (drop s c))"
  shows "extractFile (opened c T es pos) e (replicate n 0) True
     = Returns (of_nat n, opened c T es (s + n), take n (drop s c))"
proof -
  have s63: "s < 2 ^ 63" "n < 2 ^ 63" using assms(3,4) by simp_all
  have sz: "sizeInArchive e = of_nat n"
    by (simp add: sizeInArchive_def assms(1,2))
  have sk: "seekg (archive (opened c T es pos)) (dataStart e) = stream_at c s"
    by (simp add: archive_opened assms(1) seekg_stream_at [OF s63(1)])
  have rd: "sread64 (stream_at c s) (sizeInArchive e)
      = (take n (drop s c), stream_at c (s + n))"
    unfolding sz using assms(3) s63(2) by (rule sread64_stream_at)
  have lg: "length (take n (drop s c)) = n" using assms(3) by simp
  have ov: "overlay (take n (drop s c)) (replicate n 0) = take n (drop s c)"
    using lg by (simp add: overlay_def)
  have ui: "uInt (sizeInArchive e) = n" unfolding sz using assms(5) by (rule uInt_of_nat)
  have tk: "take n (take n (drop s c)) = take n (drop s c)" by simp
  show ?thesis
    unfolding extractFile_def sk rd Let_def prod.case ov ui tk tellg_stream_at
      opened_archive_update
    using lg assms(6) by (simp add: assms(1) del: length_take take_take)
qed

text \<open>One pass of the loop of \<open>zlibExtractFile\<close> on a stream that holds the data.\<close>

lemma zlib_fetch_stream_at:
  assumes "dataEnd e = of_nat (s + N)" and "k \<le> N" and "s + N \<le> length c"
    and "length c < 2 ^ 63" and "ch = min CHUNKSIZE (N - k)"
  shows "zlib_fetch e (stream_at c (s + k))
     = (take ch (drop (s + k) c), stream_at c (s + k + ch), ch)"
proof -
  have b: "s + k + CHUNKSIZE < 2 ^ 64" "s + N < 2 ^ 64" "ch < 2 ^ 63" "ch < 2 ^ 32"
    "s + k + ch \<le> length c"
    using assms(2,3,4,5) by (auto simp: CHUNKSIZE_def min_def)
  have cmp: "((of_nat (s + k) :: uint64_t) + of_nat CHUNKSIZE < dataEnd e) = (s + k + CHUNKSIZE < s + N)"
    unfolding assms(1) of_nat_add [symmetric] using b(1,2) by (rule of_nat_less_64)
  have av: "(if (of_nat (s + k) :: uint64_t) + of_nat CHUNKSIZE < dataEnd e
             then (of_nat CHUNKSIZE, stream_at c (s + k))
             else (dataEnd e - of_nat (s + k), stream_at c (s + k)))
      = ((of_nat ch :: uint64_t), stream_at c (s + k))"
  proof (cases "s + k + CHUNKSIZE < s + N")
    case True
    then have "ch = CHUNKSIZE" using assms(2,5) by (auto simp: min_def)
    then show ?thesis using True cmp by simp
  next
    case False
    then have ch: "ch = N - k" using assms(2,5) by (auto simp: min_def)
    have "s + N = (s + k) + (N - k)" using assms(2) by simp
    then have "(of_nat (s + N) :: uint64_t) - of_nat (s + k) = of_nat (N - k)"
      using of_nat_diff_64 [of "s + k" "N - k"] by simp
    then show ?thesis using False cmp ch by (simp add: assms(1))
  qed
  have rd: "sread64 (stream_at c (s + k)) (of_nat ch)
      = (take ch (drop (s + k) c), stream_at c (s + k + ch))"
    using b(5) b(3) by (rule sread64_stream_at)
  show ?thesis
    unfolding zlib_fetch_def tellg_stream_at Let_def prod.case av rd
    using b(4) by (simp add: uInt_of_nat)
qed

lemma map_fill: "length got = n \<Longrightarrow> map (fill got mem) [0..<n] = got"
  by (auto simp: fill_def list_eq_iff_nth_eq)

lemma inflate_spec_step:
  assumes "inflate_spec E enc sane fed put"
    and "sane z" and "inp \<noteq> []" and "fed z @ inp @ rest = enc bs"
    and "length (put z) + room = length bs" and "bs \<noteq> []" and "length bs < 2 ^ 32"
    and "inflate E z inp room = (rc, z', out)"
  shows "sane z' \<and> fed z' = fed z @ inp \<and> put z' = put z @ out \<and> length out \<le> room
     \<and> (if rest = [] then rc = Z_STREAM_END \<and> put z' = bs else rc = Z_OK)"
proof -
  have pre: "sane z \<and> inp \<noteq> [] \<and> fed z @ inp @ rest = enc bs
      \<and> length (put z) + room = length bs \<and> bs \<noteq> [] \<and> length bs < 2 ^ 32"
    using assms(2-7) by simp
  note all = assms(1) [unfolded inflate_spec_def, THEN conjunct2, THEN conjunct2,
      THEN conjunct2, THEN conjunct2, THEN conjunct2, rule_format, OF pre,
      unfolded assms(8) prod.case]
  show ?thesis by (rule all)
qed

lemma zlib_pass_step:
  assumes "zlib_fetch entry (archive (zl_reader st)) = (got, a3, avail_in)"
    and "length got \<le> CHUNKSIZE" and "avail_in \<le> CHUNKSIZE" and "\<not> bad a3"
    and "inflate E (zl_strm st) (map (fill got (zl_in st)) [0..<avail_in]) (zl_avail_out st)
           = (rc, z, produced)"
    and "length (zl_out st) + zl_avail_out st \<le> length buffer"
    and "\<not> is_inflate_error rc"
  shows "zlib_pass E entry buffer True st =
     (if rc \<noteq> Z_STREAM_END
      then Inr \<lparr>zl_reader = (zl_reader st)\<lparr>archive := a3\<rparr>, zl_strm = z,
             zl_avail_out = zl_avail_out st - length (take (zl_avail_out st) produced),
             zl_out = zl_out st @ take (zl_avail_out st) produced,
             zl_in = fill got (zl_in st),
             zl_crc = zcrc32 (zl_crc st) (map (fill got (zl_in st)) [0..<avail_in])\<rparr>
      else if zcrc32 (zl_crc st) (map (fill got (zl_in st)) [0..<avail_in]) \<noteq> crc32 entry
      then Inl (Returns (0, (zl_reader st)\<lparr>archive := a3\<rparr>,
                  overlay (zl_out st @ take (zl_avail_out st) produced) buffer))
      else Inl (Returns (originalSize entry, (zl_reader st)\<lparr>archive := a3\<rparr>,
                  overlay (zl_out st @ take (zl_avail_out st) produced) buffer)))"
proof -
  have "length (zl_out st @ take (zl_avail_out st) produced) \<le> length buffer"
    using assms(6) by simp
  then show ?thesis
    using assms(1-5,7) by (simp add: zlib_pass_def Let_def)
qed

lemma zlib_loop_decodes:
  assumes I: "inflate_spec E enc sane fed put"
    and e: "dataStart e = of_nat s" "dataEnd e = of_nat (s + length (enc bs))"
      "originalSize e = of_nat (length bs)" "crc32 e = zcrc32 0 (enc bs)"
    and c: "take (length (enc bs)) (drop s c) = enc bs" "s + length (enc bs) \<le> length c"
      "length c < 2 ^ 63"
    and bs: "bs \<noteq> []" "length bs < 2 ^ 32"
  shows "k < length (enc bs) \<Longrightarrow> sane z \<Longrightarrow> fed z = take k (enc bs) \<Longrightarrow> put z = out
     \<Longrightarrow> length out + room = length bs \<Longrightarrow>
     zlib_loop E e (replicate (length bs) 0) True
       \<lparr>zl_reader = opened c T es (s + k), zl_strm = z, zl_avail_out = room, zl_out = out,
        zl_in = mem, zl_crc = zcrc32 0 (take k (enc bs))\<rparr>
     = Some (Returns (of_nat (length bs), opened c T es (s + length (enc bs)), bs))"
proof (induction "length (enc bs) - k" arbitrary: k z out room mem rule: less_induct)
  case less
  let ?N = "length (enc bs)"
  define ch where "ch = min CHUNKSIZE (?N - k)"
  have ch: "0 < ch" "ch \<le> CHUNKSIZE" "k + ch \<le> ?N"
    using less.prems(1) by (simp_all add: ch_def CHUNKSIZE_def)
  define got where "got = take ch (drop k (enc bs))"
  have got_c: "take ch (drop (s + k) c) = got"
  proof -
    have "drop k (enc bs) = drop k (take ?N (drop s c))" using c(1) by simp
    also have "\<dots> = take (?N - k) (drop (s + k) c)" by (simp add: drop_take add.commute)
    finally have "got = take ch (take (?N - k) (drop (s + k) c))" by (simp add: got_def)
    then show ?thesis by (simp add: ch_def min_def)
  qed
  have lg: "length got = ch" using ch(3) by (simp add: got_def)
  have gn: "got \<noteq> []" using lg ch(1) by auto
  have split: "take k (enc bs) @ got @ drop (k + ch) (enc bs) = enc bs"
    unfolding got_def
    by (metis append_take_drop_id drop_drop add.commute)
  have pre: "take (k + ch) (enc bs) = take k (enc bs) @ got"
    unfolding got_def by (simp add: take_add)
  have fetch: "zlib_fetch e (stream_at c (s + k)) = (got, stream_at c (s + k + ch), ch)"
    using zlib_fetch_stream_at [OF e(2) _ c(2,3) ch_def] less.prems(1) got_c by simp
  obtain rc z' produced where inf: "inflate E z got room = (rc, z', produced)"
    by (cases "inflate E z got room") auto
  have f: "fed z @ got @ drop (k + ch) (enc bs) = enc bs"
    using split less.prems(3) by simp
  have pr: "length (put z) + room = length bs" using less.prems(4,5) by simp
  note st = inflate_spec_step [OF I less.prems(2) gn f pr bs inf]
  have z': "sane z'" "fed z' = take (k + ch) (enc bs)" "put z' = out @ produced"
    "length produced \<le> room"
    using st less.prems(3,4) pre by simp_all
  have fin: "if drop (k + ch) (enc bs) = [] then rc = Z_STREAM_END \<and> put z' = bs else rc = Z_OK"
    by (rule st [THEN conjunct2, THEN conjunct2, THEN conjunct2, THEN conjunct2])
  have tk: "take room produced = produced" using z'(4) by simp
  have mn: "min (length produced) room = length produced" using z'(4) by simp
  have fit: "\<not> length (replicate (length bs) (0 :: byte)) < length (out @ produced)"
    using z'(4) less.prems(5) by simp
  have crc: "zcrc32 (zcrc32 0 (take k (enc bs))) got = zcrc32 0 (take (k + ch) (enc bs))"
    by (simp add: zcrc32_append pre)
  have ne: "\<not> is_inflate_error rc"
    using fin by (auto simp: is_inflate_error_def split: if_splits)
  define st where "st = \<lparr>zl_reader = opened c T es (s + k), zl_strm = z, zl_avail_out = room,
      zl_out = out, zl_in = mem, zl_crc = zcrc32 0 (take k (enc bs))\<rparr>"
  have sel: "zl_reader st = opened c T es (s + k)" "zl_strm st = z" "zl_avail_out st = room"
    "zl_out st = out" "zl_in st = mem" "zl_crc st = zcrc32 0 (take k (enc bs))"
    by (simp_all add: st_def)
  have inp: "map (fill got mem) [0..<ch] = got" using lg by (rule map_fill)
  have p1: "zlib_fetch e (archive (zl_reader st)) = (got, stream_at c (s + k + ch), ch)"
    by (simp add: sel archive_opened fetch)
  have p2: "length got \<le> CHUNKSIZE" using lg ch(2) by simp
  have p5: "inflate E (zl_strm st) (map (fill got (zl_in st)) [0..<ch]) (zl_avail_out st)
      = (rc, z', produced)"
    by (simp add: sel inp inf)
  have p6: "length (zl_out st) + zl_avail_out st \<le> length (replicate (length bs) (0 :: byte))"
    using less.prems(5) by (simp add: sel)
  note raw = zlib_pass_step [OF p1 p2 ch(2) bad_stream_at p5 p6 ne]
  have pass: "zlib_pass E e (replicate (length bs) 0) True st
     = (if rc \<noteq> Z_STREAM_END
        then Inr \<lparr>zl_reader = opened c T es (s + k + ch), zl_strm = z',
               zl_avail_out = room - length produced, zl_out = out @ produced,
               zl_in = fill got mem, zl_crc = zcrc32 0 (take (k + ch) (enc bs))\<rparr>
        else if zcrc32 0 (take (k + ch) (enc bs)) \<noteq> crc32 e
        then Inl (Returns (0, opened c T es (s + k + ch),
                    overlay (out @ produced) (replicate (length bs) 0)))
        else Inl (Returns (originalSize e, opened c T es (s + k + ch),
                    overlay (out @ produced) (replicate (length bs) 0))))"
    unfolding raw sel inp tk crc opened_archive_update ..
  show ?case
  proof (cases "drop (k + ch) (enc bs) = []")
    case True
    then have last: "rc = Z_STREAM_END" "put z' = bs" using fin by simp_all
    have kN: "k + ch = ?N" using True ch(3) by simp
    have all: "take (k + ch) (enc bs) = enc bs" using kN by simp
    have o: "out @ produced = bs" using last(2) z'(3) by simp
    have "zlib_pass E e (replicate (length bs) 0) True st
      = Inl (Returns (of_nat (length bs), opened c T es (s + ?N), bs))"
      unfolding pass using last(1) all e(3,4) o kN
      by (simp add: overlay_def add.assoc)
    then have "zlib_loop E e (replicate (length bs) 0) True st
      = Some (Returns (of_nat (length bs), opened c T es (s + ?N), bs))"
      by (subst zlib_loop.simps) simp
    then show ?thesis by (simp only: st_def)
  next
    case False
    then have rc: "rc = Z_OK" using fin by simp
    have k': "k + ch < ?N" using False by simp
    have dec: "?N - (k + ch) < ?N - k" using ch(1) less.prems(1) by simp
    have room': "length (out @ produced) + (room - length produced) = length bs"
      using z'(4) less.prems(5) by simp
    have next_pass: "zlib_loop E e (replicate (length bs) 0) True
       \<lparr>zl_reader = opened c T es (s + (k + ch)), zl_strm = z',
        zl_avail_out = room - length produced, zl_out = out @ produced,
        zl_in = fill got mem, zl_crc = zcrc32 0 (take (k + ch) (enc bs))\<rparr>
      = Some (Returns (of_nat (length bs), opened c T es (s + ?N), bs))"
      using less.hyps [OF dec k' z'(1,2,3) room'] .
    have "zlib_loop E e (replicate (length bs) 0) True st
      = Some (Returns (of_nat (length bs), opened c T es (s + ?N), bs))"
      by (subst zlib_loop.simps) (simp add: pass rc next_pass [unfolded add.assoc [symmetric]])
    then show ?thesis by (simp only: st_def)
  qed
qed

section \<open>Writing and reading back\<close>

lemma reader_of_archive_bytes:
  assumes "fs p = Some (archive_bytes dat es)" and "13 + length dat < 2 ^ 63"
    and "\<forall>e \<in> set es. length (name e) < 65536"
  shows "DatArchiveReader fs p
     = opened (archive_bytes dat es) (of_nat (13 + length dat)) (index_of es []) 0"
proof -
  let ?c = "archive_bytes dat es"
  let ?T = "of_nat (13 + length dat) :: uint64_t"
  have c: "?c = DATFILESIGNATURE @ [DATFILEVERSION] @ bytes_of_u64 ?T
      @ (dat @ concat (map entry_bytes es))"
    by (simp add: archive_bytes_def)
  have u: "unat ?T = 13 + length dat" by (rule unat_of_nat_64) (use assms(2) in simp)
  have nz: "?T \<noteq> 0" using assms(2) of_nat_eq_0_64 [of "13 + length dat"] by simp
  have sg: "0 \<le> sint ?T" using assms(2) sint_of_nat_64 [of "13 + length dat"] by simp
  define front where "front = DATFILESIGNATURE @ [DATFILEVERSION] @ bytes_of_u64 ?T @ dat"
  have lf: "length front = 13 + length dat" by (simp add: front_def DATFILESIGNATURE_def)
  have cf: "?c = front @ concat (map entry_bytes es)" by (simp add: archive_bytes_def front_def)
  have "drop (length front) (front @ concat (map entry_bytes es)) = concat (map entry_bytes es)"
    by simp
  then have d: "drop (unat ?T) ?c = concat (map entry_bytes es)"
    unfolding u cf lf .
  have "DatArchiveReader fs p = opened ?c ?T (parse_table (drop (unat ?T) ?c) []) 0"
    using assms(1) c nz sg by (rule DatArchiveReader_valid)
  then show ?thesis
    unfolding d using parse_table_entry_bytes [OF assms(3), of "[]"] by simp
qed

text \<open>
  The source file at path 1 and the queue of one entry for it, built with the
  constructor. \<open>unbuffered\<close> is the toy decompressor with one change: it answers
  \<open>Z_STREAM_ERROR\<close> when it is given no room for output. zlib's \<open>inflate\<close> does so
  when \<open>next_out\<close> is null, which the \<open>data()\<close> of the empty vector in \<open>getFile\<close>
  is with libstdc++.
\<close>

definition source_at_1 :: "byte list \<Rightarrow> nat filesystem" where
  "source_at_1 bs = (\<lambda>p. if p = 1 then Some bs else None)"

definition queue_A :: "CompressionMethod \<Rightarrow> nat queue" where
  "queue_A m = [(1, TableEntry_new [0x41] m \<lparr>encrypted = False\<rparr>)]"

definition unbuffered :: "byte list runtime" where
  "unbuffered = \<lparr>inflateInit = (Z_OK, []),
     inflate = (\<lambda>z inp room. if room = 0 then (Z_STREAM_ERROR, z, []) else toy_inflate z inp room),
     chunk_mem = (\<lambda>i. 0), allocates = (\<lambda>n. True)\<rparr>"

text \<open>\<open>unbuffered\<close> decodes every payload that is not empty.\<close>

lemma unbuffered_inflate_ok: "inflate_ok unbuffered toy_enc"
proof -
  have step: "case inflate unbuffered z inp room of (rc, z', out) \<Rightarrow>
           True \<and> z' = z @ inp \<and> toy_put z' = toy_put z @ out \<and> length out \<le> room
           \<and> (if rest = [] then rc = Z_STREAM_END \<and> toy_put z' = bs else rc = Z_OK)"
    if h: "True \<and> inp \<noteq> [] \<and> z @ inp @ rest = toy_enc bs
        \<and> length (toy_put z) + room = length bs \<and> bs \<noteq> [] \<and> length bs < 2 ^ 32"
    for z inp room bs rest
  proof -
    have "room = length bs" using toy_inflate_step(1) [of inp z rest bs room] h by simp
    then have "room \<noteq> 0" using h by simp
    then show ?thesis
      using toy_inflate_step(2) [of inp z rest bs room] h
      by (cases "toy_inflate z inp room") (auto simp: unbuffered_def)
  qed
  have big: "\<forall>z inp room bs rest.
      True \<and> inp \<noteq> [] \<and> z @ inp @ rest = toy_enc bs
        \<and> length (toy_put z) + room = length bs \<and> bs \<noteq> [] \<and> length bs < 2 ^ 32 \<longrightarrow>
      (case inflate unbuffered z inp room of (rc, z', out) \<Rightarrow>
         True \<and> z' = z @ inp \<and> toy_put z' = toy_put z @ out \<and> length out \<le> room
         \<and> (if rest = [] then rc = Z_STREAM_END \<and> toy_put z' = bs else rc = Z_OK))"
    by (intro allI impI, rule step)
  have i: "fst (inflateInit unbuffered) = Z_OK" "snd (inflateInit unbuffered) = []"
    by (simp_all add: unbuffered_def)
  show ?thesis
    unfolding inflate_ok_def inflate_spec_def
    apply (rule exI [of _ "\<lambda>z. True"], rule exI [of _ "\<lambda>z :: byte list. z"],
        rule exI [of _ toy_put])
    using big i toy_put_Nil toy_enc_not_Nil by simp
qed

definition entry_A_empty :: TableEntry where
  "entry_A_empty = \<lparr>name = [0x41], compressionMethod = ZLIB, fileFlags = \<lparr>encrypted = False\<rparr>,
     crc32 = zcrc32 0 [0, 0, 0, 0], originalSize = 0, dataStart = 13, dataEnd = 17\<rparr>"

lemma laid_queue_A_empty:
  "laid toy_enc (source_at_1 []) (queue_A ZLIB) 13 = ([(1, entry_A_empty)], [0, 0, 0, 0])"
  by (simp add: queue_A_def source_at_1_def stored_def placed_def toy_enc_def TableEntry_new_def
      TableEntry_default_def entry_A_empty_def NONE_def ZLIB_def le_bytes_numeral)

lemma write_queue_A_empty:
  "writeArchive (\<lambda>p. True) toy_compressor (source_at_1 []) (queue_A ZLIB) 0 False
     = Some (Done (True, (source_at_1 [])(0 \<mapsto> archive_bytes [0, 0, 0, 0] [entry_A_empty]),
          [(1, entry_A_empty)]))"
proof -
  have "write_fresh (\<lambda>p. True) toy_compressor (source_at_1 []) (queue_A ZLIB) 0
     = Some (Done (True,
          (source_at_1 [])(0 \<mapsto> archive_bytes (snd (laid toy_enc (source_at_1 []) (queue_A ZLIB) 13))
             (map snd (fst (laid toy_enc (source_at_1 []) (queue_A ZLIB) 13)))),
          fst (laid toy_enc (source_at_1 []) (queue_A ZLIB) 13)))"
    by (rule write_fresh_bytes [OF toy_deflate_ok]) (simp_all add: laid_queue_A_empty)
  moreover have "source_at_1 [] 0 = None" by (simp add: source_at_1_def)
  ultimately show ?thesis
    by (simp add: writeArchive_def laid_queue_A_empty)
qed

lemma fill_Nil: "fill [] mem = mem"
  by (simp add: fill_def)

lemma getFile_entry_A_empty:
  "getFile unbuffered (opened (archive_bytes [0, 0, 0, 0] [entry_A_empty]) 17
       [([0x41], entry_A_empty)] 0) [0x41] = None"
proof -
  let ?c = "archive_bytes [0, 0, 0, 0] [entry_A_empty]"
  let ?e = entry_A_empty
  let ?r = "\<lambda>pos. opened ?c 17 [([0x41], ?e)] pos"
  have lc: "length ?c = 50"
    by (simp add: archive_bytes_def entry_bytes_def entry_A_empty_def DATFILESIGNATURE_def)
  have data: "take 4 (drop 13 ?c) = [0, 0, 0, 0]"
    by (simp add: archive_bytes_def DATFILESIGNATURE_def)
  have de: "dataEnd ?e = of_nat (13 + 4)" "dataStart ?e = of_nat 13"
    by (simp_all add: entry_A_empty_def)
  have os: "originalSize ?e = 0" by (simp add: entry_A_empty_def)
  have init: "fst (inflateInit unbuffered) = Z_OK" by (simp add: unbuffered_def)
  have sk: "seekg (archive (?r 0)) (dataStart ?e) = stream_at ?c 13"
    unfolding archive_opened de(2) by (rule seekg_stream_at) simp
  define st0 where "st0 = zlib_init unbuffered (?r 0) ?e"
  have sel0: "zl_reader st0 = ?r (13 + 0)" "zl_strm st0 = []" "zl_avail_out st0 = 0"
    "zl_out st0 = []" "zl_crc st0 = 0"
    by (simp_all add: st0_def zlib_init_def sk opened_archive_update unbuffered_def os uInt_def)
  have f0: "zlib_fetch ?e (archive (zl_reader st0))
      = (take 4 (drop (13 + 0) ?c), stream_at ?c (13 + 0 + 4), 4)"
    unfolding sel0 archive_opened
    by (rule zlib_fetch_stream_at [OF de(1)]) (simp_all add: lc CHUNKSIZE_def)
  then have f0': "zlib_fetch ?e (archive (zl_reader st0)) = ([0, 0, 0, 0], stream_at ?c 17, 4)"
    using data by simp
  define st1 where "st1 = \<lparr>zl_reader = ?r 17, zl_strm = ([] :: byte list), zl_avail_out = 0,
      zl_out = [], zl_in = fill [0, 0, 0, 0] (zl_in st0),
      zl_crc = zcrc32 0 (map (fill [0, 0, 0, 0] (zl_in st0)) [0..<4])\<rparr>"
  have p0: "zlib_pass unbuffered ?e [] True st0 = Inr st1"
    using zlib_pass_step [OF f0', of unbuffered Z_STREAM_ERROR "[]" "[]" "[]"]
    by (simp add: sel0 unbuffered_def CHUNKSIZE_def is_inflate_error_def bad_stream_at st1_def
        opened_archive_update)
  have f1: "zlib_fetch ?e (archive (zl_reader st1))
      = (take 0 (drop (13 + 4) ?c), stream_at ?c (13 + 4 + 0), 0)"
    unfolding st1_def zloop.simps archive_opened
    using zlib_fetch_stream_at [OF de(1), of 4 ?c 0] by (simp add: lc)
  then have f1': "zlib_fetch ?e (archive (zl_reader st1)) = ([], stream_at ?c 17, 0)"
    by simp
  have p1: "zlib_pass unbuffered ?e [] True st1 = Inr st1"
    using zlib_pass_step [OF f1', of unbuffered Z_STREAM_ERROR "[]" "[]" "[]"]
    by (simp add: st1_def unbuffered_def CHUNKSIZE_def is_inflate_error_def bad_stream_at
        opened_archive_update fill_Nil zcrc32_Nil)
  have "zlib_loop unbuffered ?e [] True st0 = zlib_loop unbuffered ?e [] True st1"
    by (subst zlib_loop.simps) (simp add: p0)
  also have "\<dots> = None" using p1 by (rule zlib_loop_stuck)
  finally have "zlibExtractFile unbuffered (?r 0) ?e [] True = None"
    using zlibExtractFile_loop [OF init, of "?r 0" ?e "[]" True] by (simp add: st0_def)
  then show ?thesis
    by (simp add: getFile_def contains_def getFileEntry_def getFileFromEntry_def opened_def
        entry_A_empty_def vector_max_size_def unbuffered_def NONE_def ZLIB_def)
qed

text \<open>
  C1. The claim: whatever is written with \<open>writeArchive\<close> is returned by \<open>getFile\<close>
  from the reopened archive, byte for byte, under either method, zero-length payloads
  included. An empty source file queued with the method ZLIB is written as the stream
  of the empty payload, with original size 0, and the archive opens with the entry in
  its index. \<open>getFile\<close> then constructs a vector of no bytes and hands
  \<open>zlibExtractFile\<close> its \<open>data()\<close>: \<open>inflate\<close> has no output buffer, answers
  \<open>Z_STREAM_ERROR\<close>, and the loop, which has no exit for that answer, reads on at the
  end of the data range, where every pass leaves the state as it was. \<open>getFile\<close> does
  not return. The compressor and the decompressor are the toy codec, which meets what
  is assumed of zlib for every payload that is not empty.
\<close>

theorem round_trip_of_empty_zlib_payload_does_not_return:
  "writeArchive (\<lambda>p. True) toy_compressor (source_at_1 []) (queue_A ZLIB) 0 False
     = Some (Done (True, (source_at_1 [])(0 \<mapsto> archive_bytes [0, 0, 0, 0] [entry_A_empty]),
          [(1, entry_A_empty)]))
   \<and> archive_bytes [0, 0, 0, 0] [entry_A_empty]
       = header_only 17 @ [0, 0, 0, 0] @ [1, 0, 0x41, 1, 0] @ bytes_of_u32 (zcrc32 0 [0, 0, 0, 0])
         @ [0, 0, 0, 0, 0, 0, 0, 0, 13, 0, 0, 0, 0, 0, 0, 0, 17, 0, 0, 0, 0, 0, 0, 0]
   \<and> isOpen (DatArchiveReader
         ((source_at_1 [])(0 \<mapsto> archive_bytes [0, 0, 0, 0] [entry_A_empty])) 0)
   \<and> \<not> isBad (DatArchiveReader
         ((source_at_1 [])(0 \<mapsto> archive_bytes [0, 0, 0, 0] [entry_A_empty])) 0)
   \<and> map_of (entries (DatArchiveReader
         ((source_at_1 [])(0 \<mapsto> archive_bytes [0, 0, 0, 0] [entry_A_empty])) 0)) [0x41]
       = Some entry_A_empty
   \<and> originalSize entry_A_empty = 0 \<and> compressionMethod entry_A_empty = ZLIB
   \<and> getFile unbuffered (DatArchiveReader
         ((source_at_1 [])(0 \<mapsto> archive_bytes [0, 0, 0, 0] [entry_A_empty])) 0) [0x41]
       = None"
proof -
  let ?c = "archive_bytes [0, 0, 0, 0] [entry_A_empty]"
  let ?fs = "(source_at_1 [])(0 \<mapsto> ?c)"
  have b: "?c = header_only 17 @ [0, 0, 0, 0] @ [1, 0, 0x41, 1, 0] @ bytes_of_u32 (zcrc32 0 [0, 0, 0, 0])
         @ [0, 0, 0, 0, 0, 0, 0, 0, 13, 0, 0, 0, 0, 0, 0, 0, 17, 0, 0, 0, 0, 0, 0, 0]"
    by (simp add: archive_bytes_def entry_bytes_def entry_A_empty_def header_only_def
        bytes_of_u16_def bytes_of_u64_def le_bytes_numeral ZLIB_def byte_of_Flags_def)
  have r: "DatArchiveReader ?fs 0 = opened ?c 17 [([0x41], entry_A_empty)] 0"
    using reader_of_archive_bytes [of ?fs 0 "[0, 0, 0, 0]" "[entry_A_empty]"]
    by (simp add: index_of_def entry_A_empty_def)
  have o: "isOpen (DatArchiveReader ?fs 0)" "\<not> isBad (DatArchiveReader ?fs 0)"
    "map_of (entries (DatArchiveReader ?fs 0)) [0x41] = Some entry_A_empty"
    unfolding r by (simp_all add: opened_def isOpen_def isBad_def)
  have e: "originalSize entry_A_empty = 0" "compressionMethod entry_A_empty = ZLIB"
    by (simp_all add: entry_A_empty_def)
  have g: "getFile unbuffered (DatArchiveReader ?fs 0) [0x41] = None"
    unfolding r by (rule getFile_entry_A_empty)
  show ?thesis
    using write_queue_A_empty b o e g by simp
qed

theorem round_trip_of_empty_zlib_payload_does_not_return_witness:
  "getFile unbuffered (DatArchiveReader
       ((source_at_1 [])(0 \<mapsto> archive_bytes [0, 0, 0, 0] [entry_A_empty])) 0) [0x41] = None"
  using round_trip_of_empty_zlib_payload_does_not_return by blast

section \<open>Appending to an archive whose table was not loaded\<close>












section \<open>Appending to an archive\<close>

text \<open>
  \<open>appended old T dat tbl\<close>: the bytes of the file after an append to the bytes
  \<open>old\<close> with the table offset \<open>T\<close>: the header with the new table offset, the old
  bytes from the header to \<open>T\<close>, the data \<open>dat\<close> written, the table \<open>tbl\<close>, and
  what is left of the old bytes behind them.
\<close>

definition appended :: "byte list \<Rightarrow> uint64_t \<Rightarrow> byte list \<Rightarrow> TableEntry list \<Rightarrow> byte list" where
  "appended old T dat tbl =
     (take 5 old @ bytes_of_u64 (of_nat (unat T + length dat)) @ drop 13 (take (unat T) old)
        @ dat @ concat (map entry_bytes tbl))
     @ drop (unat T + length dat + length (concat (map entry_bytes tbl))) old"

lemma sint_of_unat_64:
  assumes "unat (T :: uint64_t) < 2 ^ 63"
  shows "0 \<le> sint T"
proof -
  have "sint (of_nat (unat T) :: uint64_t) = int (unat T)" using assms by (rule sint_of_nat_64)
  then show ?thesis by simp
qed

lemma appendArchive_layout:
  assumes "fs destination = Some old"
    and "DatArchiveReader fs destination = opened old T ix 0"
    and "13 \<le> unat T" and "unat T \<le> length old"
    and "deflate_ok C enc"
    and "es = sort_key dataStart (map snd ix)"
    and "w1 = filter (\<lambda>pe. \<not> list_ex (\<lambda>entry. name entry = name (snd pe)) es) w"
    and "unat T + length (snd (laid enc fs w1 (unat T))) < 2 ^ 63"
  shows "appendArchive C fs w destination
     = Some (Done (True,
          fs(destination \<mapsto> appended old T (snd (laid enc fs w1 (unat T)))
                (es @ map snd (fst (laid enc fs w1 (unat T))))),
          fst (laid enc fs w1 (unat T))))"
proof -
  let ?n = "unat T"
  let ?dat = "snd (laid enc fs w1 ?n)"
  let ?w' = "fst (laid enc fs w1 ?n)"
  let ?s = "seekp \<lparr>ocontent = old, ppos = 0, ofail = False\<rparr> T"
  have sg: "0 \<le> sint T" using assms(8) by (intro sint_of_unat_64) simp
  have s: "?s = \<lparr>ocontent = old, ppos = ?n, ofail = False\<rparr>"
    using sg by (simp add: seekp_def)
  have tk: "length (take ?n old) = ?n" using assms(4) by simp
  have o0: "over old ?s (take ?n old)"
    using assms(4) by (simp add: s over_def)
  obtain a where wf: "writeFiles C fs w1 ?s = Some (Done (fst (laid enc fs w1 (length (take ?n old))), a))"
    and oa: "over old a (take ?n old @ snd (laid enc fs w1 (length (take ?n old))))"
    using writeFiles_laid [OF assms(5) o0, of fs w1] by blast
  have wf': "writeFiles C fs w1 ?s = Some (Done (?w', a))" using wf unfolding tk .
  have oa': "over old a (take ?n old @ ?dat)" using oa unfolding tk .
  define c where "c = take ?n old @ ?dat"
  have lc: "length c = ?n + length ?dat" using tk by (simp add: c_def)
  have oc0: "over old a c" using oa' by (simp add: c_def)
  have tk5: "take 5 c = take 5 old" using assms(3,4) by (simp add: c_def)
  have d13: "drop 13 c = drop 13 (take ?n old) @ ?dat" using assms(3,4) by (simp add: c_def)
  have "over old (writeTableLocation a) (take 5 c @ bytes_of_u64 (of_nat (length c)) @ drop 13 c)"
    using oc0 by (rule writeTableLocation_over) (use assms(3,8) lc in simp_all)
  then have ol: "over old (writeTableLocation a)
      (take 5 old @ bytes_of_u64 (of_nat (?n + length ?dat)) @ drop 13 (take ?n old) @ ?dat)"
    unfolding tk5 d13 lc .
  note t1 = writeTable_over [OF ol, of es]
  note t2 = writeTable_over [OF t1, of "map snd ?w'"]
  let ?front = "take 5 old @ bytes_of_u64 (of_nat (?n + length ?dat)) @ drop 13 (take ?n old)
        @ ?dat @ concat (map entry_bytes (es @ map snd ?w'))"
  have t3: "over old (writeTable (writeTable (writeTableLocation a) es) (map snd ?w')) ?front"
    using t2 by simp
  have lf: "length ?front = ?n + length ?dat + length (concat (map entry_bytes (es @ map snd ?w')))"
    using assms(3,4) by simp
  have oc: "ocontent (writeTable (writeTable (writeTableLocation a) es) (map snd ?w'))
      = appended old T ?dat (es @ map snd ?w')"
    using t3 unfolding over_def lf appended_def by simp
  have f0: "fs destination = Some old" by (rule assms(1))
  show ?thesis
    unfolding appendArchive_def f0 option.case assms(2) Let_def
    using wf' oc
    by (simp add: opened_def isBad_def isOpen_def getTableOffset_def getTable_def
        assms(6) [symmetric] assms(7) [symmetric])
qed

text \<open>
  The index of a reader holds each entry under its own name, and no name read from a
  file has more than \<open>65535\<close> bytes.
\<close>

definition named :: "(byte list \<times> TableEntry) list \<Rightarrow> bool" where
  "named ix = (\<forall>ke \<in> set ix. name (snd ke) = fst ke \<and> length (fst ke) < 65536)"

lemma set_emplace: "set (emplace k v es) \<subseteq> insert (k, v) (set es)"
  by (induction k v es rule: emplace.induct) auto

lemma named_emplace:
  "named ix \<Longrightarrow> length (name e) < 65536 \<Longrightarrow> named (emplace (name e) e ix)"
  using set_emplace [of "name e" e ix] by (fastforce simp: named_def)

lemma le_nat_bound: "le_nat bs < 256 ^ length bs"
proof (induction bs)
  case Nil
  show ?case by simp
next
  case (Cons b bs)
  have "unat b < 256" using unsigned_less [of b] by simp
  then have "unat b + 256 * le_nat bs < 256 + 256 * le_nat bs" by simp
  also have "\<dots> = 256 * (le_nat bs + 1)" by simp
  also have "\<dots> \<le> 256 * 256 ^ length bs" using Cons by (simp add: Suc_leI)
  finally show ?case by simp
qed

lemma le_nat_take_2: "le_nat (take 2 b) < 65536"
proof -
  have "le_nat (take 2 b) < 256 ^ length (take 2 b)" by (rule le_nat_bound)
  also have "\<dots> \<le> 256 ^ 2" by (rule power_increasing) simp_all
  finally show ?thesis by simp
qed

lemma length_name_entry_of_bytes: "length (name (entry_of_bytes L b)) = L"
  by (simp add: entry_of_bytes_def overlay_def)

lemma parse_table_named: "named acc \<Longrightarrow> named (parse_table b acc)"
proof (induction b acc rule: parse_table.induct)
  case (1 b es)
  show ?case
  proof (cases "length b < 2")
    case True
    then show ?thesis using "1.prems" by (simp add: parse_table.simps [of b])
  next
    case False
    let ?e = "entry_of_bytes (le_nat (take 2 b)) (drop 2 b)"
    have "length (name ?e) < 65536"
      using le_nat_take_2 [of b] by (simp add: length_name_entry_of_bytes)
    then have "named (emplace (name ?e) ?e es)" using "1.prems" by (intro named_emplace)
    then show ?thesis
      using "1.IH" [OF False refl] False by (simp add: parse_table.simps [of b] Let_def)
  qed
qed

lemma parse_table_keeps:
  "sorted_wrt (<) (map fst acc) \<Longrightarrow> map_of acc k = Some v \<Longrightarrow> map_of (parse_table b acc) k = Some v"
proof (induction b acc rule: parse_table.induct)
  case (1 b es)
  show ?case
  proof (cases "length b < 2")
    case True
    then show ?thesis using "1.prems" by (simp add: parse_table.simps [of b])
  next
    case False
    let ?e = "entry_of_bytes (le_nat (take 2 b)) (drop 2 b)"
    have "map_of (emplace (name ?e) ?e es) k = Some v"
      using "1.prems" by (auto simp: emplace_map_of split: option.splits)
    then show ?thesis
      using "1.IH" [OF False refl emplace_sorted [OF "1.prems"(1)]] False
      by (simp add: parse_table.simps [of b] Let_def)
  qed
qed

lemma whole_records_entry_bytes:
  "\<forall>e \<in> set es. length (name e) < 65536 \<Longrightarrow> whole_records (concat (map entry_bytes es))"
proof (induction es)
  case Nil
  show ?case by (simp add: whole_records.simps [of "[]"])
next
  case (Cons e es)
  let ?b = "entry_bytes e @ concat (map entry_bytes es)"
  have n: "length (name e) < 65536" using Cons.prems by simp
  have len: "length (entry_bytes e) = length (name e) + 32" using n by (rule length_entry_bytes)
  have L: "le_nat (take 2 ?b) = length (name e)"
    using le_nat_name_length [OF n] by (simp add: entry_bytes_def)
  have ne: "(?b = []) = False" using len by auto
  have sh: "(length ?b < 2 \<or> length ?b < length (name e) + 32) = False" using len by simp
  have dr: "drop (length (name e) + 32) ?b = concat (map entry_bytes es)"
    using len by simp
  have "whole_records ?b =
     (if ?b = [] then True
      else if length ?b < 2 \<or> length ?b < le_nat (take 2 ?b) + 32 then False
      else whole_records (drop (le_nat (take 2 ?b) + 32) ?b))"
    by (rule whole_records.simps)
  also have "\<dots> = whole_records (concat (map entry_bytes es))"
    unfolding L ne sh dr by simp
  finally show ?case using Cons.IH Cons.prems by simp
qed

lemma parse_table_entry_bytes_append:
  assumes "\<forall>e \<in> set es. length (name e) < 65536"
  shows "parse_table (concat (map entry_bytes es) @ rest) acc = parse_table rest (index_of es acc)"
  using parse_table_whole [OF whole_records_entry_bytes [OF assms], of rest acc]
    parse_table_entry_bytes [OF assms, of acc]
  by simp

lemma count_of_name:
  "distinct (map f xs) \<Longrightarrow> x \<in> set xs \<Longrightarrow> length (filter (\<lambda>y. f y = f x) xs) = 1"
proof (induction xs)
  case Nil
  then show ?case by simp
next
  case (Cons a xs)
  show ?case
  proof (cases "f a = f x")
    case True
    then have "f x \<notin> f ` set xs" using Cons.prems(1) by simp
    then have "\<forall>y \<in> set xs. f y \<noteq> f x" by (metis imageI)
    then have "filter (\<lambda>y. f y = f x) xs = []" by (simp add: filter_empty_conv)
    then show ?thesis using True by simp
  next
    case False
    then have "x \<in> set xs" using Cons.prems(2) by auto
    then show ?thesis using Cons.IH Cons.prems(1) False by simp
  qed
qed

lemma named_distinct:
  assumes "named ix" and "sorted_wrt (<) (map fst ix)"
  shows "distinct (map name (sort_key f (map snd ix)))"
proof -
  have m: "map name (map snd ix) = map fst ix"
    using assms(1) by (induction ix) (auto simp: named_def)
  have "distinct (map fst ix)"
    using assms(2) strict_sorted_iff by blast
  then have d: "distinct (map name (map snd ix))" unfolding m .
  have a: "distinct (map snd ix) \<and> inj_on name (set (map snd ix))"
    using d by (rule distinct_map [THEN iffD1])
  have "distinct (sort_key f (map snd ix))" using a by simp
  moreover have "inj_on name (set (sort_key f (map snd ix)))" using a by simp
  ultimately show ?thesis by (rule distinct_map [THEN iffD2, OF conjI])
qed

lemma laid_names:
  "map (\<lambda>pe. name (snd pe)) (fst (laid enc fs q off)) = map (\<lambda>pe. name (snd pe)) q"
  by (induction q arbitrary: off) (auto simp: split_beta placed_def split: option.splits)

lemma length_take_in_header:
  assumes "13 \<le> unat (T :: uint64_t)" and "unat T \<le> length old"
  shows "length (take 5 old @ bytes_of_u64 x @ drop 13 (take (unat T) old) @ dat)
     = unat T + length dat"
  using assms by simp

lemma appended_header:
  assumes "old = DATFILESIGNATURE @ [DATFILEVERSION] @ bytes_of_u64 T @ body"
  shows "appended old T dat tbl
     = DATFILESIGNATURE @ [DATFILEVERSION] @ bytes_of_u64 (of_nat (unat T + length dat))
       @ (drop 13 (take (unat T) old) @ dat @ concat (map entry_bytes tbl)
          @ drop (unat T + length dat + length (concat (map entry_bytes tbl))) old)"
proof -
  have "take 5 old = DATFILESIGNATURE @ [DATFILEVERSION]"
    unfolding assms by (simp add: DATFILESIGNATURE_def)
  then show ?thesis by (simp add: appended_def)
qed

lemma drop_appended:
  assumes "13 \<le> unat T" and "unat T \<le> length old"
  shows "drop (unat T + length dat) (appended old T dat tbl)
     = concat (map entry_bytes tbl)
       @ drop (unat T + length dat + length (concat (map entry_bytes tbl))) old"
proof -
  define p where "p = take 5 old @ bytes_of_u64 (of_nat (unat T + length dat))
      @ drop 13 (take (unat T) old) @ dat"
  define q where "q = concat (map entry_bytes tbl)
      @ drop (unat T + length dat + length (concat (map entry_bytes tbl))) old"
  have l: "length p = unat T + length dat"
    unfolding p_def using assms by (rule length_take_in_header)
  have "appended old T dat tbl = p @ q" by (simp add: appended_def p_def q_def)
  then have "drop (unat T + length dat) (appended old T dat tbl) = drop (length p) (p @ q)"
    using l by simp
  also have "\<dots> = q" by simp
  finally show ?thesis unfolding q_def .
qed

lemma appended_region:
  assumes "13 \<le> unat T" and "unat T \<le> length old"
  shows "drop 13 (take (unat T) (appended old T dat tbl)) = drop 13 (take (unat T) old)"
proof -
  define h where "h = take 5 old @ bytes_of_u64 (of_nat (unat T + length dat))"
  define m where "m = drop 13 (take (unat T) old)"
  define q where "q = dat @ concat (map entry_bytes tbl)
      @ drop (unat T + length dat + length (concat (map entry_bytes tbl))) old"
  have lh: "length h = 13" using assms by (simp add: h_def)
  have lm: "length m = unat T - 13" using assms by (simp add: m_def)
  have a: "appended old T dat tbl = h @ m @ q" by (simp add: appended_def h_def m_def q_def)
  have "take (unat T) (h @ m @ q) = h @ m" using lh lm assms(1) by simp
  then have "drop 13 (take (unat T) (appended old T dat tbl)) = drop (length h) (h @ m)"
    unfolding a lh by simp
  also have "\<dots> = m" by simp
  finally show ?thesis unfolding m_def .
qed

lemma range_in_region:
  assumes "13 \<le> s" and "t \<le> n"
  shows "take (t - s) (drop s xs) = take (t - s) (drop (s - 13) (drop 13 (take n xs)))"
proof -
  have "drop (s - 13) (drop 13 (take n xs)) = drop s (take n xs)" using assms(1) by simp
  also have "\<dots> = take (n - s) (drop s xs)" by (simp add: drop_take)
  finally have "take (t - s) (drop (s - 13) (drop 13 (take n xs)))
      = take (t - s) (take (n - s) (drop s xs))" by simp
  also have "\<dots> = take (t - s) (drop s xs)" using assms(2) by (simp add: min_def)
  finally show ?thesis by simp
qed

lemma contains_opened:
  assumes "named ix"
  shows "contains (opened c T ix pos) nm
     = list_ex (\<lambda>entry. name entry = nm) (sort_key f (map snd ix))"
proof -
  have "contains (opened c T ix pos) nm = (nm \<in> fst ` set ix)"
    by (simp add: contains_def opened_def map_of_eq_None_iff)
  also have "\<dots> = (nm \<in> name ` snd ` set ix)"
    using assms by (force simp: named_def image_iff)
  also have "\<dots> = list_ex (\<lambda>entry. name entry = nm) (sort_key f (map snd ix))"
    by (auto simp: list_ex_iff)
  finally show ?thesis .
qed

lemma entry_in_index:
  assumes "named ix" and "map_of ix nm = Some e"
  shows "name e = nm" and "e \<in> set (sort_key f (map snd ix))" and "length (name e) < 65536"
proof -
  have m: "(nm, e) \<in> set ix" using assms(2) by (rule map_of_SomeD)
  then show "name e = nm" using assms(1) by (force simp: named_def)
  show "e \<in> set (sort_key f (map snd ix))" using m by force
  show "length (name e) < 65536" using m assms(1) by (force simp: named_def)
qed

lemma names_in_index:
  assumes "named ix" and "e \<in> set (sort_key f (map snd ix))"
  shows "length (name e) < 65536" and "map_of ix (name e) \<noteq> None"
proof -
  obtain k where m: "(k, e) \<in> set ix" using assms(2) by auto
  then have k: "name e = k" "length k < 65536" using assms(1) by (force simp: named_def)+
  show "length (name e) < 65536" using k by simp
  show "map_of ix (name e) \<noteq> None"
    using m k by (simp add: map_of_eq_None_iff) force
qed

lemma reader_of_appended:
  assumes "fs' p = Some (appended old T dat (es @ tbl))"
    and "old = DATFILESIGNATURE @ [DATFILEVERSION] @ bytes_of_u64 T @ body"
    and "13 \<le> unat T" and "unat T \<le> length old"
    and "unat T + length dat < 2 ^ 63"
    and "\<forall>e \<in> set es. length (name e) < 65536"
  shows "\<exists>rest. DatArchiveReader fs' p
     = opened (appended old T dat (es @ tbl)) (of_nat (unat T + length dat))
         (parse_table rest (index_of es [])) 0"
proof -
  let ?new = "appended old T dat (es @ tbl)"
  let ?T = "of_nat (unat T + length dat) :: uint64_t"
  have u: "unat ?T = unat T + length dat"
    by (rule unat_of_nat_64) (use assms(5) in simp)
  have nz: "?T \<noteq> 0"
  proof
    assume "?T = 0"
    then have "unat ?T = 0" by simp
    then show False using u assms(3) by simp
  qed
  have sg: "0 \<le> sint ?T" by (rule sint_of_unat_64) (use u assms(5) in simp)
  have r: "DatArchiveReader fs' p = opened ?new ?T (parse_table (drop (unat ?T) ?new) []) 0"
    using assms(1) appended_header [OF assms(2)] nz sg by (rule DatArchiveReader_valid)
  define rest where "rest = concat (map entry_bytes tbl)
      @ drop (unat T + length dat + length (concat (map entry_bytes (es @ tbl)))) old"
  have "drop (unat ?T) ?new = concat (map entry_bytes (es @ tbl))
       @ drop (unat T + length dat + length (concat (map entry_bytes (es @ tbl)))) old"
    unfolding u using assms(3,4) by (rule drop_appended)
  also have "\<dots> = concat (map entry_bytes es) @ rest" by (simp add: rest_def)
  finally have d: "drop (unat ?T) ?new = concat (map entry_bytes es) @ rest" .
  have "parse_table (drop (unat ?T) ?new) [] = parse_table rest (index_of es [])"
    unfolding d using assms(6) by (rule parse_table_entry_bytes_append)
  then show ?thesis using r by auto
qed

text \<open>
  C6. The claim: for every queued entry whose name is the name of an entry already in
  the target archive, \<open>appendArchive\<close> drops that queued entry and goes on with the
  rest, leaves the content of the existing entry unchanged, and does not increase the
  number of entries of that name. The target is a file with a valid header whose table
  begins behind the header and inside the file, as in every archive that
  \<open>writeArchive\<close> has finished; the compressor does what is assumed of zlib, the
  file stays within the offsets a stream can seek to, and the target itself is not
  queued as a source (it would be read while it is written). Then \<open>appendArchive\<close>
  answers \<open>true\<close>; the queue it leaves and the entries it writes are those whose names
  the reader of the target does not contain, in their order, so no name of the target is
  among them; the bytes of the file from the header to the old table offset are the bytes
  they were; and for every entry of the target, the table written has exactly one record
  of its name, the reader of the new file has the same descriptor under that name,
  checksum included, and the bytes of its data range, where that range lies between the
  header and the old table, are unchanged.
\<close>

theorem appendArchive_skips_names_in_the_archive:
  assumes "fs destination = Some old"
    and "old = DATFILESIGNATURE @ [DATFILEVERSION] @ bytes_of_u64 T @ body"
    and "13 \<le> unat T" and "unat T \<le> length old"
    and "deflate_ok C enc"
    and "destination \<notin> fst ` set w"
    and "r = DatArchiveReader fs destination"
    and "kept = filter (\<lambda>pe. \<not> contains r (name (snd pe))) w"
    and "unat T + length (snd (laid enc fs kept (unat T))) < 2 ^ 63"
  shows "\<exists>new w'.
       appendArchive C fs w destination = Some (Done (True, fs(destination \<mapsto> new), w'))
     \<and> w' = fst (laid enc fs kept (unat T))
     \<and> map fst w' = map fst kept
     \<and> map (\<lambda>pe. name (snd pe)) w' = map (\<lambda>pe. name (snd pe)) kept
     \<and> (\<forall>pe \<in> set w. contains r (name (snd pe))
           \<longrightarrow> name (snd pe) \<notin> (\<lambda>pe. name (snd pe)) ` set w')
     \<and> new = appended old T (snd (laid enc fs kept (unat T)))
               (sort_key dataStart (getTable r) @ map snd w')
     \<and> drop 13 (take (unat T) new) = drop 13 (take (unat T) old)
     \<and> isOpen (DatArchiveReader (fs(destination \<mapsto> new)) destination)
     \<and> \<not> isBad (DatArchiveReader (fs(destination \<mapsto> new)) destination)
     \<and> (\<forall>nm e. map_of (entries r) nm = Some e \<longrightarrow>
            length (filter (\<lambda>e'. name e' = nm) (sort_key dataStart (getTable r) @ map snd w')) = 1
          \<and> map_of (entries (DatArchiveReader (fs(destination \<mapsto> new)) destination)) nm = Some e
          \<and> (13 \<le> unat (dataStart e) \<and> unat (dataEnd e) \<le> unat T \<longrightarrow>
               take (unat (dataEnd e) - unat (dataStart e)) (drop (unat (dataStart e)) new)
             = take (unat (dataEnd e) - unat (dataStart e)) (drop (unat (dataStart e)) old)))"
proof -
  define ix where "ix = parse_table (drop (unat T) old) []"
  define es where "es = sort_key dataStart (map snd ix)"
  define dat where "dat = snd (laid enc fs kept (unat T))"
  define w' where "w' = fst (laid enc fs kept (unat T))"
  define new where "new = appended old T dat (es @ map snd w')"
  define fs' where "fs' = fs(destination \<mapsto> new)"
  have bound: "unat T + length dat < 2 ^ 63" using assms(9) by (simp add: dat_def)
  have nz: "T \<noteq> 0" using assms(3) by auto
  have sg: "0 \<le> sint T" by (rule sint_of_unat_64) (use bound in simp)
  have r: "r = opened old T ix 0"
    unfolding assms(7) ix_def using assms(1,2) nz sg by (rule DatArchiveReader_valid)
  have n0: "named []" by (simp add: named_def)
  have nm: "named ix" unfolding ix_def using n0 by (rule parse_table_named)
  have so: "sorted_wrt (<) (map fst ix)" unfolding ix_def by (rule parse_table_sorted) simp
  have tb: "sort_key dataStart (getTable r) = es"
    by (simp add: r getTable_def opened_def es_def)
  have en: "entries r = ix" by (simp add: r opened_def)
  have co: "contains r n = list_ex (\<lambda>entry. name entry = n) es" for n
    unfolding r es_def using nm by (rule contains_opened)
  have kept: "kept = filter (\<lambda>pe. \<not> list_ex (\<lambda>entry. name entry = name (snd pe)) es) w"
    unfolding assms(8) by (simp add: co)
  have ap: "appendArchive C fs w destination = Some (Done (True, fs', w'))"
    unfolding fs'_def new_def dat_def w'_def
    using assms(1) r [unfolded assms(7)] assms(3,4,5) es_def kept assms(9)
    by (rule appendArchive_layout)
  have paths: "map fst w' = map fst kept" unfolding w'_def by (rule laid_paths)
  have names: "map (\<lambda>pe. name (snd pe)) w' = map (\<lambda>pe. name (snd pe)) kept"
    unfolding w'_def by (rule laid_names)
  have fresh: "\<not> contains r n" if "n \<in> (\<lambda>pe. name (snd pe)) ` set w'" for n
  proof -
    have "n \<in> set (map (\<lambda>pe. name (snd pe)) w')" using that by simp
    then have "n \<in> set (map (\<lambda>pe. name (snd pe)) kept)" unfolding names .
    then show ?thesis unfolding assms(8) by auto
  qed
  have skipped: "\<forall>pe \<in> set w. contains r (name (snd pe))
      \<longrightarrow> name (snd pe) \<notin> (\<lambda>pe. name (snd pe)) ` set w'"
    using fresh by blast
  have region: "drop 13 (take (unat T) new) = drop 13 (take (unat T) old)"
    unfolding new_def using assms(3,4) by (rule appended_region)
  have short: "\<forall>e \<in> set es. length (name e) < 65536"
    unfolding es_def using names_in_index(1) [OF nm] by blast
  have f': "fs' destination = Some (appended old T dat (es @ map snd w'))"
    by (simp add: fs'_def new_def)
  obtain rest where r': "DatArchiveReader fs' destination
      = opened new (of_nat (unat T + length dat)) (parse_table rest (index_of es [])) 0"
    using reader_of_appended [where fs' = fs' and p = destination and old = old and T = T
        and dat = dat and es = es and tbl = "map snd w'" and body = body,
        OF f' assms(2,3,4) bound short]
    unfolding new_def by blast
  have op: "isOpen (DatArchiveReader fs' destination)" "\<not> isBad (DatArchiveReader fs' destination)"
    unfolding r' by (simp_all add: opened_def isOpen_def isBad_def)
  have di: "distinct (map name es)" unfolding es_def using nm so by (rule named_distinct)
  have s0: "sorted_wrt (<) (map fst ([] :: (byte list \<times> TableEntry) list))" by simp
  have each: "length (filter (\<lambda>e'. name e' = n) (es @ map snd w')) = 1
          \<and> map_of (entries (DatArchiveReader fs' destination)) n = Some e
          \<and> (13 \<le> unat (dataStart e) \<and> unat (dataEnd e) \<le> unat T \<longrightarrow>
               take (unat (dataEnd e) - unat (dataStart e)) (drop (unat (dataStart e)) new)
             = take (unat (dataEnd e) - unat (dataStart e)) (drop (unat (dataStart e)) old))"
    if m: "map_of (entries r) n = Some e" for n e
  proof -
    have m': "map_of ix n = Some e" using m unfolding en .
    have ne: "name e = n" using nm m' by (rule entry_in_index(1))
    have ie: "e \<in> set es" unfolding es_def using nm m' by (rule entry_in_index(2))
    have c: "contains r n" using m by (simp add: contains_def)
    have one: "length (filter (\<lambda>y. name y = name e) es) = 1" using di ie by (rule count_of_name)
    have "\<forall>pe \<in> set w'. name (snd pe) \<noteq> n" using fresh c by blast
    then have none: "filter (\<lambda>e'. name e' = n) (map snd w') = []"
      by (auto simp: filter_empty_conv)
    have cnt: "length (filter (\<lambda>e'. name e' = n) (es @ map snd w')) = 1"
      using one none unfolding ne by simp
    have "map_of (index_of es []) (name e) = Some e"
      using s0 ie di by (rule map_of_index_of) simp
    then have "map_of (parse_table rest (index_of es [])) (name e) = Some e"
      by (rule parse_table_keeps [OF index_of_sorted [OF s0]])
    then have kept_e: "map_of (entries (DatArchiveReader fs' destination)) n = Some e"
      unfolding r' ne by (simp add: opened_def)
    have same: "take (unat (dataEnd e) - unat (dataStart e)) (drop (unat (dataStart e)) new)
             = take (unat (dataEnd e) - unat (dataStart e)) (drop (unat (dataStart e)) old)"
      if "13 \<le> unat (dataStart e)" and "unat (dataEnd e) \<le> unat T"
      unfolding range_in_region [OF that, of new] range_in_region [OF that, of old] region ..
    show ?thesis using cnt kept_e same by blast
  qed
  have all: "\<forall>n e. map_of (entries r) n = Some e \<longrightarrow>
            length (filter (\<lambda>e'. name e' = n) (es @ map snd w')) = 1
          \<and> map_of (entries (DatArchiveReader fs' destination)) n = Some e
          \<and> (13 \<le> unat (dataStart e) \<and> unat (dataEnd e) \<le> unat T \<longrightarrow>
               take (unat (dataEnd e) - unat (dataStart e)) (drop (unat (dataStart e)) new)
             = take (unat (dataEnd e) - unat (dataStart e)) (drop (unat (dataStart e)) old))"
    by (intro allI impI, rule each)
  have "appendArchive C fs w destination = Some (Done (True, fs(destination \<mapsto> new), w'))
     \<and> w' = fst (laid enc fs kept (unat T))
     \<and> map fst w' = map fst kept
     \<and> map (\<lambda>pe. name (snd pe)) w' = map (\<lambda>pe. name (snd pe)) kept
     \<and> (\<forall>pe \<in> set w. contains r (name (snd pe))
           \<longrightarrow> name (snd pe) \<notin> (\<lambda>pe. name (snd pe)) ` set w')
     \<and> new = appended old T (snd (laid enc fs kept (unat T)))
               (sort_key dataStart (getTable r) @ map snd w')
     \<and> drop 13 (take (unat T) new) = drop 13 (take (unat T) old)
     \<and> isOpen (DatArchiveReader (fs(destination \<mapsto> new)) destination)
     \<and> \<not> isBad (DatArchiveReader (fs(destination \<mapsto> new)) destination)
     \<and> (\<forall>nm e. map_of (entries r) nm = Some e \<longrightarrow>
            length (filter (\<lambda>e'. name e' = nm) (sort_key dataStart (getTable r) @ map snd w')) = 1
          \<and> map_of (entries (DatArchiveReader (fs(destination \<mapsto> new)) destination)) nm = Some e
          \<and> (13 \<le> unat (dataStart e) \<and> unat (dataEnd e) \<le> unat T \<longrightarrow>
               take (unat (dataEnd e) - unat (dataStart e)) (drop (unat (dataStart e)) new)
             = take (unat (dataEnd e) - unat (dataStart e)) (drop (unat (dataStart e)) old)))"
    unfolding tb
    using ap [unfolded fs'_def] w'_def paths names skipped new_def [unfolded dat_def] region
      op [unfolded fs'_def] all [unfolded fs'_def]
    by (intro conjI)
  then show ?thesis by blast
qed

text \<open>
  An archive at path 0 with one entry \<open>A\<close>, whose data is the byte 9, and two sources
  queued: the file at path 1 under the name \<open>A\<close> and the file at path 2 under the
  name \<open>B\<close>.
\<close>

definition entry_A9 :: TableEntry where
  "entry_A9 = \<lparr>name = [0x41], compressionMethod = NONE, fileFlags = \<lparr>encrypted = False\<rparr>,
     crc32 = zcrc32 0 [9], originalSize = 1, dataStart = 13, dataEnd = 14\<rparr>"

definition shelf :: "nat filesystem" where
  "shelf = (\<lambda>p. if p = 0 then Some (archive_bytes [9] [entry_A9])
                 else if p = 1 then Some [7] else if p = 2 then Some [8] else None)"

definition queue_AB :: "nat queue" where
  "queue_AB = [(1, TableEntry_new [0x41] NONE \<lparr>encrypted = False\<rparr>),
               (2, TableEntry_new [0x42] NONE \<lparr>encrypted = False\<rparr>)]"

lemma reader_of_shelf:
  "DatArchiveReader shelf 0 = opened (archive_bytes [9] [entry_A9]) 14 [([0x41], entry_A9)] 0"
  using reader_of_archive_bytes [of shelf 0 "[9]" "[entry_A9]"]
  by (simp add: index_of_def entry_A9_def shelf_def)

lemma kept_of_queue_AB:
  "filter (\<lambda>pe. \<not> contains (DatArchiveReader shelf 0) (name (snd pe))) queue_AB
     = [(2, TableEntry_new [0x42] NONE \<lparr>encrypted = False\<rparr>)]"
  unfolding reader_of_shelf
  by (simp add: queue_AB_def contains_def opened_def TableEntry_new_def TableEntry_default_def)

lemma laid_kept_of_queue_AB:
  "snd (laid toy_enc shelf [(2, TableEntry_new [0x42] NONE \<lparr>encrypted = False\<rparr>)] 14) = [8]"
  by (simp add: shelf_def stored_def TableEntry_new_def TableEntry_default_def)

theorem appendArchive_skips_names_in_the_archive_witness:
  "\<exists>new w'. appendArchive toy_compressor shelf queue_AB 0 = Some (Done (True, shelf(0 \<mapsto> new), w'))
     \<and> map fst w' = [2]
     \<and> map (\<lambda>pe. name (snd pe)) w' = [[0x42]]
     \<and> map_of (entries (DatArchiveReader shelf 0)) [0x41] = Some entry_A9
     \<and> map_of (entries (DatArchiveReader (shelf(0 \<mapsto> new)) 0)) [0x41] = Some entry_A9
     \<and> take 1 (drop 13 new) = [9]"
proof -
  let ?old = "archive_bytes [9] [entry_A9]"
  let ?r = "DatArchiveReader shelf 0"
  let ?kept = "filter (\<lambda>pe. \<not> contains ?r (name (snd pe))) queue_AB"
  have p1: "shelf 0 = Some ?old" by (simp add: shelf_def)
  have p2: "?old = DATFILESIGNATURE @ [DATFILEVERSION] @ bytes_of_u64 14
      @ ([9] @ concat (map entry_bytes [entry_A9]))"
    by (simp add: archive_bytes_def)
  have p3: "13 \<le> unat (14 :: uint64_t)" by simp
  have l: "length ?old = 47"
    by (simp add: archive_bytes_def DATFILESIGNATURE_def entry_bytes_def entry_A9_def)
  have p4: "unat (14 :: uint64_t) \<le> length ?old" unfolding l by simp
  have p6: "(0 :: nat) \<notin> fst ` set queue_AB" by (simp add: queue_AB_def)
  have u: "unat (14 :: uint64_t) = 14" by simp
  have p9: "unat (14 :: uint64_t) + length (snd (laid toy_enc shelf ?kept (unat (14 :: uint64_t))))
      < 2 ^ 63"
    unfolding kept_of_queue_AB u laid_kept_of_queue_AB by simp
  obtain new w' where
    a: "appendArchive toy_compressor shelf queue_AB 0 = Some (Done (True, shelf(0 \<mapsto> new), w'))"
    and b: "map fst w' = map fst ?kept"
    and c: "map (\<lambda>pe. name (snd pe)) w' = map (\<lambda>pe. name (snd pe)) ?kept"
    and d: "\<forall>nm e. map_of (entries ?r) nm = Some e \<longrightarrow>
            length (filter (\<lambda>e'. name e' = nm) (sort_key dataStart (getTable ?r) @ map snd w')) = 1
          \<and> map_of (entries (DatArchiveReader (shelf(0 \<mapsto> new)) 0)) nm = Some e
          \<and> (13 \<le> unat (dataStart e) \<and> unat (dataEnd e) \<le> unat (14 :: uint64_t) \<longrightarrow>
               take (unat (dataEnd e) - unat (dataStart e)) (drop (unat (dataStart e)) new)
             = take (unat (dataEnd e) - unat (dataStart e)) (drop (unat (dataStart e)) ?old))"
    using appendArchive_skips_names_in_the_archive
      [where fs = shelf and destination = 0 and old = ?old and T = 14 and C = toy_compressor
        and enc = toy_enc and w = queue_AB and r = ?r and kept = ?kept
        and body = "[9] @ concat (map entry_bytes [entry_A9])",
        OF p1 p2 p3 p4 toy_deflate_ok p6 refl refl p9]
    by blast
  have m: "map_of (entries ?r) [0x41] = Some entry_A9"
    unfolding reader_of_shelf by (simp add: opened_def)
  have e: "map_of (entries (DatArchiveReader (shelf(0 \<mapsto> new)) 0)) [0x41] = Some entry_A9"
    using d m by blast
  have "13 \<le> unat (dataStart entry_A9) \<and> unat (dataEnd entry_A9) \<le> unat (14 :: uint64_t)"
    by (simp add: entry_A9_def)
  then have "take (unat (dataEnd entry_A9) - unat (dataStart entry_A9))
        (drop (unat (dataStart entry_A9)) new)
      = take (unat (dataEnd entry_A9) - unat (dataStart entry_A9))
        (drop (unat (dataStart entry_A9)) ?old)"
    using d m by blast
  then have f: "take 1 (drop 13 new) = [9]"
    by (simp add: entry_A9_def archive_bytes_def DATFILESIGNATURE_def)
  have b': "map fst w' = [2]" using b unfolding kept_of_queue_AB by simp
  have c': "map (\<lambda>pe. name (snd pe)) w' = [[0x42]]"
    using c unfolding kept_of_queue_AB by (simp add: TableEntry_new_def)
  show ?thesis
    by (rule exI [of _ new], rule exI [of _ w']) (intro conjI a b' c' m e f)
qed

end
